theory Spec2Isabelle
  imports Main "HOL-Library.Word"
begin

section \<open>Memory model\<close>

text \<open>
  The C code of \<^verbatim>\<open>examples/c/support.c\<close> works on heap blocks through pointers.
  The model keeps an explicit store. A pointer is a block address; address \<open>0\<close> is
  \<^verbatim>\<open>NULL\<close>. A pointer into an array is the array's address together with an index.
  Every undefined behaviour of C that the code can reach (dereferencing a null, dangling
  or ill-typed pointer, reading past the end of a block, reading an indeterminate value,
  releasing a block that \<^verbatim>\<open>malloc\<close> did not hand out or that was released before)
  is a \<open>fault\<close> value of the model, and so is a failed \<^verbatim>\<open>assert\<close>.

  The platform is LP64: \<^verbatim>\<open>size_t\<close> is a 64-bit word and a pointer takes 8 bytes.
\<close>

type_synonym addr = nat

text \<open>
  Modelled from the spec: \<^verbatim>\<open>struct ffi_type\<close> is declared in libffi's \<^verbatim>\<open>ffi.h\<close>,
  which is not part of the sources. The descriptor carries the scalar attributes size,
  alignment and type tag, and the reference to its sentinel-terminated child array.
\<close>

record ffi_type =
  size_fld :: "64 word"
  alignment :: "16 word"
  type :: "16 word"
  elements :: addr

text \<open>
  Modelled from the spec: the two aggregate tags \<^verbatim>\<open>FFI_TYPE_STRUCT\<close> and
  \<^verbatim>\<open>FFI_TYPE_COMPLEX\<close> are macros of libffi's \<^verbatim>\<open>ffi.h\<close>; their values are
  platform-dependent, so they are a parameter of every operation.
\<close>

record platform =
  FFI_TYPE_STRUCT :: "16 word"
  FFI_TYPE_COMPLEX :: "16 word"

datatype storage = Static | Malloced

datatype block =
  Type_block "ffi_type option"
  | Array_block "addr option list"

type_synonym cell = "(storage \<times> block) option"

text \<open>
  \<open>cells\<close> holds the block at address \<open>Suc i\<close> in position \<open>i\<close>; \<open>None\<close> is an unmapped
  or released address. \<open>budget\<close> is the number of allocations \<^verbatim>\<open>malloc\<close> will still
  grant before it returns \<^verbatim>\<open>NULL\<close>. \<open>freed\<close> is the allocator's record of the blocks
  released so far, oldest first.
\<close>

record memory =
  cells :: "cell list"
  budget :: nat
  freed :: "addr list"

datatype fault =
  Invalid_pointer
  | Out_of_bounds
  | Uninitialised
  | Invalid_free
  | Assertion_failed
  | Signed_overflow

definition cell_at :: "memory \<Rightarrow> addr \<Rightarrow> cell" where
  "cell_at m p =
     (case p of 0 \<Rightarrow> None
      | Suc i \<Rightarrow> if i < length (cells m) then cells m ! i else None)"

definition put_cell :: "memory \<Rightarrow> addr \<Rightarrow> cell \<Rightarrow> memory" where
  "put_cell m p c =
     (case p of 0 \<Rightarrow> m | Suc i \<Rightarrow> m\<lparr>cells := (cells m)[i := c]\<rparr>)"

definition load_type :: "memory \<Rightarrow> addr \<Rightarrow> fault + ffi_type" where
  "load_type m p =
     (case cell_at m p of
        Some (s, Type_block (Some ty)) \<Rightarrow> Inr ty
      | Some (s, Type_block None) \<Rightarrow> Inl Uninitialised
      | _ \<Rightarrow> Inl Invalid_pointer)"

definition store_type :: "memory \<Rightarrow> addr \<Rightarrow> ffi_type \<Rightarrow> fault + memory" where
  "store_type m p ty =
     (case cell_at m p of
        Some (s, Type_block old) \<Rightarrow> Inr (put_cell m p (Some (s, Type_block (Some ty))))
      | _ \<Rightarrow> Inl Invalid_pointer)"

definition load_slot :: "memory \<Rightarrow> addr \<Rightarrow> nat \<Rightarrow> fault + addr" where
  "load_slot m a i =
     (case cell_at m a of
        Some (s, Array_block sl) \<Rightarrow>
          if i < length sl
          then (case sl ! i of Some v \<Rightarrow> Inr v | None \<Rightarrow> Inl Uninitialised)
          else Inl Out_of_bounds
      | _ \<Rightarrow> Inl Invalid_pointer)"

definition store_slot :: "memory \<Rightarrow> addr \<Rightarrow> nat \<Rightarrow> addr \<Rightarrow> fault + memory" where
  "store_slot m a i v =
     (case cell_at m a of
        Some (s, Array_block sl) \<Rightarrow>
          if i < length sl
          then Inr (put_cell m a (Some (s, Array_block (sl[i := Some v]))))
          else Inl Out_of_bounds
      | _ \<Rightarrow> Inl Invalid_pointer)"

text \<open>
  \<^verbatim>\<open>malloc\<close>: the new block gets the first address never used before and indeterminate
  contents (\<open>Type_block None\<close>, or an array of \<open>None\<close> slots); with no budget left the
  result is \<^verbatim>\<open>NULL\<close> and the memory is unchanged.
\<close>

definition malloc :: "memory \<Rightarrow> block \<Rightarrow> addr \<times> memory" where
  "malloc m b =
     (if budget m = 0 then (0, m)
      else (Suc (length (cells m)),
            m\<lparr>cells := cells m @ [Some (Malloced, b)], budget := budget m - 1\<rparr>))"

text \<open>\<^verbatim>\<open>free\<close>: a no-op on \<^verbatim>\<open>NULL\<close>; otherwise the block must be a live \<^verbatim>\<open>malloc\<close> block.\<close>

definition free :: "memory \<Rightarrow> addr \<Rightarrow> fault + memory" where
  "free m p =
     (if p = 0 then Inr m
      else (case cell_at m p of
              Some (Malloced, b) \<Rightarrow> Inr ((put_cell m p None)\<lparr>freed := freed m @ [p]\<rparr>)
            | _ \<Rightarrow> Inl Invalid_free))"

text \<open>\<^verbatim>\<open>memcpy(dst, src, sizeof(ffi_type))\<close> between two descriptor blocks.\<close>

definition memcpy_type :: "memory \<Rightarrow> addr \<Rightarrow> addr \<Rightarrow> fault + memory" where
  "memcpy_type m dst src =
     (case load_type m src of Inl e \<Rightarrow> Inl e | Inr ty \<Rightarrow> store_type m dst ty)"

text \<open>The assignment \<^verbatim>\<open>p->elements = a\<close>.\<close>

definition store_elements :: "memory \<Rightarrow> addr \<Rightarrow> addr \<Rightarrow> fault + memory" where
  "store_elements m p a =
     (case load_type m p of Inl e \<Rightarrow> Inl e | Inr ty \<Rightarrow> store_type m p (ty\<lparr>elements := a\<rparr>))"

definition sizeof_ptr :: "64 word" where
  "sizeof_ptr = 8"

definition is_aggregate :: "platform \<Rightarrow> ffi_type \<Rightarrow> bool" where
  "is_aggregate P ty \<longleftrightarrow> type ty = FFI_TYPE_STRUCT P \<or> type ty = FFI_TYPE_COMPLEX P"

section \<open>The operations of support.c\<close>

text \<open>
  \<^verbatim>\<open>ffi_type_destroy\<close> and \<^verbatim>\<open>ffi_type_destroy_array\<close> call each other, and on a cyclic
  store they do not return. The first argument after the platform is fuel: every call
  and every loop iteration takes one unit, and \<open>None\<close> means that the fuel ran out.
  \<open>destroy_loop\<close> is the \<^verbatim>\<open>for\<close> loop of \<^verbatim>\<open>ffi_type_destroy_array\<close>, with \<open>curr = types + i\<close>.
\<close>

fun ffi_type_destroy :: "platform \<Rightarrow> nat \<Rightarrow> memory \<Rightarrow> addr \<Rightarrow> (fault + memory) option"
  and ffi_type_destroy_array :: "platform \<Rightarrow> nat \<Rightarrow> memory \<Rightarrow> addr \<Rightarrow> (fault + memory) option"
  and destroy_loop :: "platform \<Rightarrow> nat \<Rightarrow> memory \<Rightarrow> addr \<Rightarrow> nat \<Rightarrow> (fault + memory) option"
where
  "ffi_type_destroy P 0 m t = None"
| "ffi_type_destroy P (Suc f) m t =
     (if t = 0 then Some (Inr m)
      else (case load_type m t of
              Inl e \<Rightarrow> Some (Inl e)
            | Inr ty \<Rightarrow>
                if type ty = FFI_TYPE_STRUCT P \<or> type ty = FFI_TYPE_COMPLEX P
                then (case ffi_type_destroy_array P f m (elements ty) of
                        None \<Rightarrow> None
                      | Some (Inl e) \<Rightarrow> Some (Inl e)
                      | Some (Inr m1) \<Rightarrow> Some (free m1 t))
                else Some (Inr m)))"
| "ffi_type_destroy_array P 0 m types = None"
| "ffi_type_destroy_array P (Suc f) m types =
     (case destroy_loop P f m types 0 of
        None \<Rightarrow> None
      | Some (Inl e) \<Rightarrow> Some (Inl e)
      | Some (Inr m1) \<Rightarrow> Some (free m1 types))"
| "destroy_loop P 0 m types i = None"
| "destroy_loop P (Suc f) m types i =
     (case load_slot m types i of
        Inl e \<Rightarrow> Some (Inl e)
      | Inr c \<Rightarrow>
          if c \<noteq> 0
          then (case ffi_type_destroy P f m c of
                  None \<Rightarrow> None
                | Some (Inl e) \<Rightarrow> Some (Inl e)
                | Some (Inr m1) \<Rightarrow> destroy_loop P f m1 types (Suc i))
          else Some (Inr m))"

text \<open>
  The first loop of \<^verbatim>\<open>ffi_type_clone_array\<close>: \<open>sz\<close> (the variable \<^verbatim>\<open>size\<close>) starts
  at 1 and counts the entries before the sentinel, in \<^verbatim>\<open>size_t\<close> arithmetic. The store
  does not change during the scan, and a read past the block is a fault, so the scan
  is total.
\<close>

definition slot_count :: "memory \<Rightarrow> addr \<Rightarrow> nat" where
  "slot_count m a = (case cell_at m a of Some (s, Array_block sl) \<Rightarrow> length sl | _ \<Rightarrow> 0)"

function scan_size :: "memory \<Rightarrow> addr \<Rightarrow> nat \<Rightarrow> 64 word \<Rightarrow> fault + 64 word" where
  "scan_size m types i sz =
     (case load_slot m types i of
        Inl e \<Rightarrow> Inl e
      | Inr c \<Rightarrow> if c \<noteq> 0 then scan_size m types (Suc i) (sz + 1) else Inr sz)"
  by pat_completeness auto
termination
proof (relation "measure (\<lambda>(m, types, i, sz). slot_count m types - i)")
  show "wf (measure (\<lambda>(m, types, i, sz). slot_count m types - i))"
    by simp
next
  fix m types i and sz :: "64 word" and c
  assume "load_slot m types i = Inr c"
  then have "i < slot_count m types"
    by (auto simp: load_slot_def slot_count_def
        split: option.splits block.splits if_splits prod.splits)
  then show "((m, types, Suc i, sz + 1), (m, types, i, sz))
      \<in> measure (\<lambda>(m, types, i, sz). slot_count m types - i)"
    by simp
qed

text \<open>
  \<^verbatim>\<open>ffi_type_clone\<close>, \<^verbatim>\<open>ffi_type_clone_array\<close> and the second loop of the latter
  (\<open>clone_loop\<close>, with the loop variable \<open>i\<close>; \<open>i < size\<close> keeps \<open>++i\<close> from wrapping).
\<close>

fun ffi_type_clone :: "platform \<Rightarrow> nat \<Rightarrow> memory \<Rightarrow> addr \<Rightarrow> (fault + addr \<times> memory) option"
  and ffi_type_clone_array :: "platform \<Rightarrow> nat \<Rightarrow> memory \<Rightarrow> addr \<Rightarrow> (fault + addr \<times> memory) option"
  and clone_loop ::
    "platform \<Rightarrow> nat \<Rightarrow> memory \<Rightarrow> addr \<Rightarrow> addr \<Rightarrow> 64 word \<Rightarrow> nat \<Rightarrow> (fault + memory) option"
where
  "ffi_type_clone P 0 m t = None"
| "ffi_type_clone P (Suc f) m t =
     (if t = 0 then Some (Inr (0, m))
      else (case load_type m t of
              Inl e \<Rightarrow> Some (Inl e)
            | Inr ty \<Rightarrow>
                if type ty = FFI_TYPE_STRUCT P \<or> type ty = FFI_TYPE_COMPLEX P
                then (case malloc m (Type_block None) of
                        (copy, m1) \<Rightarrow>
                          if copy = 0 then Some (Inl Assertion_failed)
                          else (case memcpy_type m1 copy t of
                                  Inl e \<Rightarrow> Some (Inl e)
                                | Inr m2 \<Rightarrow>
                                   (case load_type m2 t of
                                      Inl e \<Rightarrow> Some (Inl e)
                                    | Inr ty2 \<Rightarrow>
                                       (case ffi_type_clone_array P f m2 (elements ty2) of
                                          None \<Rightarrow> None
                                        | Some (Inl e) \<Rightarrow> Some (Inl e)
                                        | Some (Inr (arr, m3)) \<Rightarrow>
                                           (case store_elements m3 copy arr of
                                              Inl e \<Rightarrow> Some (Inl e)
                                            | Inr m4 \<Rightarrow> Some (Inr (copy, m4)))))))
                else Some (Inr (t, m))))"
| "ffi_type_clone_array P 0 m types = None"
| "ffi_type_clone_array P (Suc f) m types =
     (case scan_size m types 0 1 of
        Inl e \<Rightarrow> Some (Inl e)
      | Inr sz \<Rightarrow>
         (case malloc m (Array_block (replicate (unat (sz * sizeof_ptr) div unat sizeof_ptr) None)) of
            (copy, m1) \<Rightarrow>
              if copy = 0 then Some (Inl Assertion_failed)
              else (case clone_loop P f m1 types copy sz 0 of
                      None \<Rightarrow> None
                    | Some (Inl e) \<Rightarrow> Some (Inl e)
                    | Some (Inr m2) \<Rightarrow> Some (Inr (copy, m2)))))"
| "clone_loop P 0 m types copy sz i = None"
| "clone_loop P (Suc f) m types copy sz i =
     (if i < unat sz
      then (case load_slot m types i of
              Inl e \<Rightarrow> Some (Inl e)
            | Inr v \<Rightarrow>
               (case ffi_type_clone P f m v of
                  None \<Rightarrow> None
                | Some (Inl e) \<Rightarrow> Some (Inl e)
                | Some (Inr (c, m1)) \<Rightarrow>
                   (case store_slot m1 copy i c of
                      Inl e \<Rightarrow> Some (Inl e)
                    | Inr m2 \<Rightarrow> clone_loop P f m2 types copy sz (Suc i))))
      else Some (Inr m))"

section \<open>Descriptor trees: what a well-formed store holds\<close>

text \<open>
  A \<open>tree\<close> lists the blocks that a descriptor reaches. \<open>Atom p s ty\<close> is an atomic
  descriptor at address \<open>p\<close>, in storage \<open>s\<close>, with contents \<open>ty\<close>. \<open>Agg p ty ts junk\<close> is
  an aggregate at \<open>p\<close> with contents \<open>ty\<close>; its child array, at \<open>elements ty\<close>, holds the
  addresses of the children \<open>ts\<close> in order, then the \<^verbatim>\<open>NULL\<close> sentinel, then the slots
  \<open>junk\<close> behind the sentinel (indeterminate ones included).
\<close>

datatype tree =
  Atom addr storage ffi_type
  | Agg addr ffi_type "tree list" "addr option list"

fun root :: "tree \<Rightarrow> addr" where
  "root (Atom p s ty) = p"
| "root (Agg p ty ts junk) = p"

text \<open>
  The heap blocks a tree owns, in the order in which a post-order walk meets them: the
  blocks of the children first, from left to right, then the child array, then the
  descriptor. Atomic descriptors are owned by nobody.
\<close>

fun owned :: "tree \<Rightarrow> addr list" where
  "owned (Atom p s ty) = []"
| "owned (Agg p ty ts junk) = concat (map owned ts) @ [elements ty, p]"

fun atoms :: "tree \<Rightarrow> addr set" where
  "atoms (Atom p s ty) = {p}"
| "atoms (Agg p ty ts junk) = (\<Union>t \<in> set ts. atoms t)"

definition array_cell :: "tree list \<Rightarrow> addr option list \<Rightarrow> cell" where
  "array_cell ts junk = Some (Malloced, Array_block (map (Some \<circ> root) ts @ Some 0 # junk))"

text \<open>
  \<open>repr P m t\<close>: the store \<open>m\<close> holds the tree \<open>t\<close>. Aggregates and their child arrays
  are \<^verbatim>\<open>malloc\<close> blocks, atoms are initialised descriptors with a non-aggregate tag,
  and every child array (sentinel and trailing slots included) fits in the address space.
  A tree is finite, so a store that holds one is acyclic below its root; sharing of
  subtrees is allowed unless \<open>distinct (owned t)\<close> is asked for as well.
\<close>

fun repr :: "platform \<Rightarrow> memory \<Rightarrow> tree \<Rightarrow> bool" where
  "repr P m (Atom p s ty) \<longleftrightarrow>
     cell_at m p = Some (s, Type_block (Some ty)) \<and> \<not> is_aggregate P ty"
| "repr P m (Agg p ty ts junk) \<longleftrightarrow>
     cell_at m p = Some (Malloced, Type_block (Some ty)) \<and> is_aggregate P ty \<and>
     cell_at m (elements ty) = array_cell ts junk \<and>
     (length ts + 1 + length junk) * 8 < 2 ^ 64 \<and>
     (\<forall>t \<in> set ts. repr P m t)"

text \<open>
  Fuel that suffices for a walk over the tree, and the number of \<^verbatim>\<open>malloc\<close> calls that
  cloning it makes.
\<close>

fun tree_fuel :: "tree \<Rightarrow> nat" where
  "tree_fuel (Atom p s ty) = 1"
| "tree_fuel (Agg p ty ts junk) = 4 + length ts + sum_list (map tree_fuel ts)"

fun alloc_count :: "tree \<Rightarrow> nat" where
  "alloc_count (Atom p s ty) = 0"
| "alloc_count (Agg p ty ts junk) = 2 + sum_list (map alloc_count ts)"

text \<open>
  \<open>clone_of t t'\<close>: \<open>t'\<close> has the shape of \<open>t\<close>, every atom of \<open>t\<close> is the very same
  atom in \<open>t'\<close>, every aggregate has the same size, alignment and tag, and the child
  arrays of \<open>t'\<close> end with the sentinel.
\<close>

fun clone_of :: "tree \<Rightarrow> tree \<Rightarrow> bool"
  and clones_of :: "tree list \<Rightarrow> tree list \<Rightarrow> bool" where
  "clone_of (Atom p s ty) t' \<longleftrightarrow> t' = Atom p s ty"
| "clone_of (Agg p ty ts junk) (Atom p' s' ty') \<longleftrightarrow> False"
| "clone_of (Agg p ty ts junk) (Agg p' ty' ts' junk') \<longleftrightarrow>
     size_fld ty' = size_fld ty \<and> alignment ty' = alignment ty \<and> type ty' = type ty \<and>
     junk' = [] \<and> clones_of ts ts'"
| "clones_of [] ts' \<longleftrightarrow> ts' = []"
| "clones_of (t # ts) [] \<longleftrightarrow> False"
| "clones_of (t # ts) (t' # ts') \<longleftrightarrow> clone_of t t' \<and> clones_of ts ts'"

text \<open>The store after the blocks \<open>xs\<close> were released, one after the other.\<close>

definition release :: "memory \<Rightarrow> addr list \<Rightarrow> memory" where
  "release m xs = foldl (\<lambda>m x. (put_cell m x None)\<lparr>freed := freed m @ [x]\<rparr>) m xs"

text \<open>A store in which some blocks of \<open>m\<close> may have been released and nothing else changed.\<close>

definition decayed :: "memory \<Rightarrow> memory \<Rightarrow> bool" where
  "decayed m m' \<longleftrightarrow> (\<forall>x. cell_at m' x = cell_at m x \<or> cell_at m' x = None)"


section \<open>The operations as the specification words them\<close>

text \<open>
  The specification describes \<^verbatim>\<open>destroy-array\<close> as calling destroy on each element before
  the sentinel, in index order, and \<^verbatim>\<open>clone-array\<close> as cloning each element index by
  index, the final sentinel slot included. \<open>destroy_each\<close> and \<open>clone_each\<close> are these
  descriptions, over the list of entries read from the source array beforehand; they are
  compared with the loops of the code below.
\<close>

fun destroy_each :: "platform \<Rightarrow> nat \<Rightarrow> memory \<Rightarrow> addr list \<Rightarrow> (fault + memory) option" where
  "destroy_each P f m [] = Some (Inr m)"
| "destroy_each P f m (x # xs) =
     (case ffi_type_destroy P f m x of
        None \<Rightarrow> None
      | Some (Inl e) \<Rightarrow> Some (Inl e)
      | Some (Inr m1) \<Rightarrow> destroy_each P f m1 xs)"

fun clone_each :: "platform \<Rightarrow> nat \<Rightarrow> memory \<Rightarrow> addr \<Rightarrow> nat \<Rightarrow> addr list \<Rightarrow> (fault + memory) option"
where
  "clone_each P f m copy i [] = Some (Inr m)"
| "clone_each P f m copy i (x # xs) =
     (case ffi_type_clone P f m x of
        None \<Rightarrow> None
      | Some (Inl e) \<Rightarrow> Some (Inl e)
      | Some (Inr (c, m1)) \<Rightarrow>
         (case store_slot m1 copy i c of
            Inl e \<Rightarrow> Some (Inl e)
          | Inr m2 \<Rightarrow> clone_each P f m2 copy (Suc i) xs))"

section \<open>Outcomes of cloning\<close>

text \<open>
  \<open>cloned P m m' t t'\<close>: from the store \<open>m\<close>, cloning \<open>t\<close> gave the store \<open>m'\<close>, which
  holds the clone \<open>t'\<close>. The blocks of \<open>t'\<close> are exactly the addresses that \<open>m'\<close> has and
  \<open>m\<close> had not, no block of \<open>m\<close> changed, and nothing was released.
  \<open>cloned_list\<close> is the same for the loop that fills the array \<open>c\<close>, whose first slots
  already hold \<open>cs\<close>. A clone that does not succeed stops at a failed assertion, when
  the allocator's budget is too small.
\<close>

definition cloned :: "platform \<Rightarrow> memory \<Rightarrow> memory \<Rightarrow> tree \<Rightarrow> tree \<Rightarrow> bool" where
  "cloned P m m' t t' \<longleftrightarrow>
     clone_of t t' \<and> repr P m' t' \<and> distinct (owned t') \<and>
     set (owned t') = {length (cells m) <.. length (cells m')} \<and>
     length (cells m') = length (cells m) + alloc_count t \<and>
     (\<forall>x \<le> length (cells m). cell_at m' x = cell_at m x) \<and>
     freed m' = freed m \<and> budget m' + alloc_count t = budget m"

definition cloned_list ::
  "platform \<Rightarrow> memory \<Rightarrow> memory \<Rightarrow> addr \<Rightarrow> addr list \<Rightarrow> tree list \<Rightarrow> tree list \<Rightarrow> bool" where
  "cloned_list P m m' c cs ts ts' \<longleftrightarrow>
     clones_of ts ts' \<and> (\<forall>t' \<in> set ts'. repr P m' t') \<and>
     cell_at m' c =
       Some (Malloced, Array_block (map Some cs @ map (Some \<circ> root) ts' @ [Some 0])) \<and>
     distinct (concat (map owned ts')) \<and>
     set (concat (map owned ts')) = {length (cells m) <.. length (cells m')} \<and>
     length (cells m') = length (cells m) + sum_list (map alloc_count ts) \<and>
     (\<forall>x \<le> length (cells m). x \<noteq> c \<longrightarrow> cell_at m' x = cell_at m x) \<and>
     freed m' = freed m \<and> budget m' + sum_list (map alloc_count ts) = budget m"

definition clone_result :: "platform \<Rightarrow> memory \<Rightarrow> tree \<Rightarrow> fault + addr \<times> memory \<Rightarrow> bool" where
  "clone_result P m t r \<longleftrightarrow>
     (case r of
        Inl e \<Rightarrow> e = Assertion_failed \<and> budget m < alloc_count t
      | Inr (c, m') \<Rightarrow> \<exists>t'. c = root t' \<and> cloned P m m' t t')"

definition loop_result ::
  "platform \<Rightarrow> memory \<Rightarrow> addr \<Rightarrow> addr list \<Rightarrow> tree list \<Rightarrow> fault + memory \<Rightarrow> bool" where
  "loop_result P m c cs ts r \<longleftrightarrow>
     (case r of
        Inl e \<Rightarrow> e = Assertion_failed \<and> budget m < sum_list (map alloc_count ts)
      | Inr m' \<Rightarrow> \<exists>ts'. cloned_list P m m' c cs ts ts')"

definition array_result ::
  "platform \<Rightarrow> memory \<Rightarrow> tree list \<Rightarrow> fault + addr \<times> memory \<Rightarrow> bool" where
  "array_result P m ts r \<longleftrightarrow>
     (case r of
        Inl e \<Rightarrow> e = Assertion_failed \<and> budget m < 1 + sum_list (map alloc_count ts)
      | Inr (c, m') \<Rightarrow>
          c = Suc (length (cells m)) \<and>
          (\<exists>m1 ts'. malloc m (Array_block (replicate (Suc (length ts)) None)) = (c, m1) \<and>
             cloned_list P m1 m' c [] ts ts' \<and>
             (\<forall>f \<ge> 2 + length ts + sum_list (map tree_fuel ts).
                clone_each P f m1 c 0 (map root ts @ [0]) = Some (Inr m'))))"

section \<open>The closure test program\<close>

text \<open>
  \<^verbatim>\<open>src/c/test.c\<close> works on \<^verbatim>\<open>int\<close> objects and on the array of argument pointers. Its
  store is a list of values, the value at address \<open>Suc i\<close> in position \<open>i\<close>. \<^verbatim>\<open>int\<close> is a
  32-bit word; an overflowing signed addition is undefined behaviour, hence a fault.
\<close>

datatype cval =
  Int_val "32 word"
  | Ptr_array "addr list"
  | Indeterminate
  | Opaque

type_synonym cstore = "cval list"

definition cload :: "cstore \<Rightarrow> addr \<Rightarrow> cval option" where
  "cload st p =
     (case p of 0 \<Rightarrow> None | Suc i \<Rightarrow> if i < length st then Some (st ! i) else None)"

definition load_int :: "cstore \<Rightarrow> addr \<Rightarrow> fault + 32 word" where
  "load_int st p =
     (case cload st p of
        Some (Int_val v) \<Rightarrow> Inr v
      | Some Indeterminate \<Rightarrow> Inl Uninitialised
      | _ \<Rightarrow> Inl Invalid_pointer)"

definition load_ptr :: "cstore \<Rightarrow> addr \<Rightarrow> nat \<Rightarrow> fault + addr" where
  "load_ptr st a i =
     (case cload st a of
        Some (Ptr_array ps) \<Rightarrow> if i < length ps then Inr (ps ! i) else Inl Out_of_bounds
      | _ \<Rightarrow> Inl Invalid_pointer)"

definition store_int :: "cstore \<Rightarrow> addr \<Rightarrow> 32 word \<Rightarrow> fault + cstore" where
  "store_int st p v =
     (case cload st p of
        Some (Int_val old) \<Rightarrow> Inr (st[p - 1 := Int_val v])
      | Some Indeterminate \<Rightarrow> Inr (st[p - 1 := Int_val v])
      | _ \<Rightarrow> Inl Invalid_pointer)"

text \<open>\<^verbatim>\<open>*(int*)result = *(int*)userdata + **(int**)args;\<close>\<close>

definition callback :: "cstore \<Rightarrow> addr \<Rightarrow> addr \<Rightarrow> addr \<Rightarrow> addr \<Rightarrow> fault + cstore" where
  "callback st cif result args userdata =
     (case load_int st userdata of
        Inl e \<Rightarrow> Inl e
      | Inr u \<Rightarrow>
         (case load_ptr st args 0 of
            Inl e \<Rightarrow> Inl e
          | Inr a0 \<Rightarrow>
             (case load_int st a0 of
                Inl e \<Rightarrow> Inl e
              | Inr v \<Rightarrow>
                  if sint u + sint v < - (2 ^ 31) \<or> 2 ^ 31 \<le> sint u + sint v
                  then Inl Signed_overflow
                  else store_int st result (u + v))))"

text \<open>
  Modelled from the spec: \<^verbatim>\<open>ffi_prep_cif\<close>, \<^verbatim>\<open>ffi_closure_alloc\<close>, \<^verbatim>\<open>ffi_prep_closure_loc\<close> and
  the trampoline they install are libffi's, not part of the sources. By the
  specification, calling the entry point of a closure bound to \<open>(cif, fun, user_data)\<close>
  runs \<open>fun (cif, result buffer, argument pointer array, user_data)\<close>, where the array
  holds one pointer per declared argument, in declared order, each to the value the
  caller supplied; the call returns what the callback left in the result buffer.
  \<open>closure_call\<close> places the actual arguments, the pointer array and an indeterminate
  result buffer behind the current store and does that.
\<close>

definition closure_call ::
  "(cstore \<Rightarrow> addr \<Rightarrow> addr \<Rightarrow> addr \<Rightarrow> addr \<Rightarrow> fault + cstore) \<Rightarrow> addr \<Rightarrow> addr \<Rightarrow>
     cstore \<Rightarrow> 32 word list \<Rightarrow> fault + 32 word" where
  "closure_call fn cif user_data st actuals =
     (let n = length st;
          k = length actuals;
          st1 = st @ map Int_val actuals @
                [Ptr_array (map (\<lambda>i. n + 1 + i) [0..<k]), Indeterminate];
          args = n + k + 1;
          result = n + k + 2
      in (case fn st1 cif result args user_data of
            Inl e \<Rightarrow> Inl e
          | Inr st2 \<Rightarrow> load_int st2 result))"

text \<open>
  \<^verbatim>\<open>main\<close>: the call interface \<^verbatim>\<open>cif\<close> is at address 1 and \<^verbatim>\<open>env = 5\<close> at address 2;
  \<^verbatim>\<open>fn\<close> is the entry point that \<^verbatim>\<open>ffi_prep_closure_loc(closure, &cif, callback, &env, fn)\<close>
  binds.
\<close>

definition main_store :: cstore where
  "main_store = [Opaque, Int_val 5]"

definition main_fn :: "32 word \<Rightarrow> fault + 32 word" where
  "main_fn x = closure_call callback 1 2 main_store [x]"

section \<open>A concrete store\<close>

text \<open>
  The tags of libffi 3.x, two of its built-in atomic descriptors, and a store that
  holds \<^verbatim>\<open>struct { int; struct { int; }; double; }\<close>: the outer descriptor at address 3
  with its child array at 4, the inner one at 5 with its child array at 6. The inner
  array has one more slot behind its sentinel, never initialised.
\<close>

definition libffi :: platform where
  "libffi = \<lparr>FFI_TYPE_STRUCT = 13, FFI_TYPE_COMPLEX = 15\<rparr>"

definition sint_type :: ffi_type where
  "sint_type = \<lparr>size_fld = 4, alignment = 4, type = 10, elements = 0\<rparr>"

definition double_type :: ffi_type where
  "double_type = \<lparr>size_fld = 8, alignment = 8, type = 3, elements = 0\<rparr>"

definition outer_type :: ffi_type where
  "outer_type = \<lparr>size_fld = 0, alignment = 0, type = 13, elements = 4\<rparr>"

definition inner_type :: ffi_type where
  "inner_type = \<lparr>size_fld = 0, alignment = 0, type = 13, elements = 6\<rparr>"

definition demo_store :: memory where
  "demo_store =
     \<lparr>cells =
        [Some (Static, Type_block (Some sint_type)),
         Some (Static, Type_block (Some double_type)),
         Some (Malloced, Type_block (Some outer_type)),
         Some (Malloced, Array_block [Some 1, Some 5, Some 2, Some 0]),
         Some (Malloced, Type_block (Some inner_type)),
         Some (Malloced, Array_block [Some 1, Some 0, None])],
      budget = 6,
      freed = []\<rparr>"

definition inner_tree :: tree where
  "inner_tree = Agg 5 inner_type [Atom 1 Static sint_type] [None]"

definition demo_children :: "tree list" where
  "demo_children = [Atom 1 Static sint_type, inner_tree, Atom 2 Static double_type]"

section \<open>Facts about the store\<close>

lemma cell_at_0 [simp]: "cell_at m 0 = None"
  by (simp add: cell_at_def)

lemma cell_at_put_cell:
  "cell_at (put_cell m p c) x =
     (if x = p \<and> 0 < p \<and> p \<le> length (cells m) then c else cell_at m x)"
  by (auto simp: cell_at_def put_cell_def nth_list_update split: nat.splits)

lemma cell_at_live: "cell_at m x = Some c \<Longrightarrow> 0 < x \<and> x \<le> length (cells m)"
  by (auto simp: cell_at_def split: nat.splits if_splits)

lemma cell_at_beyond: "length (cells m) < x \<Longrightarrow> cell_at m x = None"
  by (auto simp: cell_at_def split: nat.splits)

lemma release_Nil [simp]: "release m [] = m"
  by (simp add: release_def)

lemma release_Cons: "release m (x # xs) = release ((put_cell m x None)\<lparr>freed := freed m @ [x]\<rparr>) xs"
  by (simp add: release_def)

lemma release_append: "release m (xs @ ys) = release (release m xs) ys"
  by (simp add: release_def)

lemma cell_at_freed_upd [simp]: "cell_at (m\<lparr>freed := fs\<rparr>) x = cell_at m x"
  by (simp add: cell_at_def split: nat.splits)

lemma cell_at_release:
  "cell_at (release m xs) x = (if x \<in> set xs then None else cell_at m x)"
proof (induction xs arbitrary: m)
  case Nil
  show ?case by simp
next
  case (Cons p xs)
  have "cell_at (put_cell m p None) y = (if y = p then None else cell_at m y)" for y
    by (cases "p = 0") (auto simp: cell_at_put_cell cell_at_beyond not_le)
  with Cons show ?case
    by (simp add: release_Cons)
qed

lemma freed_put_cell [simp]: "freed (put_cell m p c) = freed m"
  by (simp add: put_cell_def split: nat.splits)

lemma budget_put_cell [simp]: "budget (put_cell m p c) = budget m"
  by (simp add: put_cell_def split: nat.splits)

lemma length_put_cell [simp]: "length (cells (put_cell m p c)) = length (cells m)"
  by (simp add: put_cell_def split: nat.splits)

lemma freed_release: "freed (release m xs) = freed m @ xs"
  by (induction xs arbitrary: m) (auto simp: release_Cons)

lemma budget_release: "budget (release m xs) = budget m"
  by (induction xs arbitrary: m) (auto simp: release_Cons)

lemma length_release: "length (cells (release m xs)) = length (cells m)"
  by (induction xs arbitrary: m) (auto simp: release_Cons)

lemma free_release:
  "cell_at m p = Some (Malloced, b) \<Longrightarrow> free m p = Inr (release m [p])"
  by (auto simp: free_def release_Cons dest: cell_at_live)

lemma repr_root_live: "repr P m t \<Longrightarrow> root t \<noteq> 0"
  by (cases t) (auto dest: cell_at_live)

lemma repr_frame:
  "repr P m t \<Longrightarrow> (\<forall>x \<in> atoms t \<union> set (owned t). cell_at m' x = cell_at m x) \<Longrightarrow> repr P m' t"
proof (induction t)
  case (Atom p s ty)
  then show ?case by simp
next
  case (Agg p ty ts junk)
  have "repr P m' t" if "t \<in> set ts" for t
    using Agg.IH [OF that] Agg.prems that by auto
  with Agg.prems show ?case by simp
qed

lemma repr_atoms_kind:
  "repr P m t \<Longrightarrow> x \<in> atoms t \<Longrightarrow>
     \<exists>s ty. cell_at m x = Some (s, Type_block (Some ty)) \<and> \<not> is_aggregate P ty"
  by (induction t) auto

lemma repr_owned_kind:
  "repr P m t \<Longrightarrow> x \<in> set (owned t) \<Longrightarrow>
     (\<exists>ty. cell_at m x = Some (Malloced, Type_block (Some ty)) \<and> is_aggregate P ty) \<or>
     (\<exists>sl. cell_at m x = Some (Malloced, Array_block sl))"
  by (induction t) (auto simp: array_cell_def)

lemma repr_atoms_owned_disjoint:
  "repr P m t \<Longrightarrow> repr P m u \<Longrightarrow> x \<in> atoms t \<Longrightarrow> x \<notin> set (owned u)"
  using repr_atoms_kind [of P m t x] repr_owned_kind [of P m u x] by auto

lemma repr_release:
  assumes "repr P m t" and "\<forall>u \<in> set us. repr P m u"
    and "set (owned t) \<inter> set (concat (map owned us)) = {}"
  shows "repr P (release m (concat (map owned us))) t"
proof (rule repr_frame [OF assms(1)], rule ballI)
  fix x assume x: "x \<in> atoms t \<union> set (owned t)"
  have "x \<notin> set (concat (map owned us))"
  proof
    assume "x \<in> set (concat (map owned us))"
    then obtain u where u: "u \<in> set us" "x \<in> set (owned u)" by auto
    with assms(3) have "x \<notin> set (owned t)" by auto
    with x have "x \<in> atoms t" by simp
    with repr_atoms_owned_disjoint [OF assms(1), of u x] assms(2) u show False by auto
  qed
  then show "cell_at (release m (concat (map owned us))) x = cell_at m x"
    by (simp add: cell_at_release)
qed

lemma load_slot_entry:
  "cell_at m a = Some (s, Array_block (map Some xs @ Some z # junk)) \<Longrightarrow> i < length xs \<Longrightarrow>
     load_slot m a i = Inr (xs ! i)"
  by (simp add: load_slot_def nth_append)

lemma load_slot_sentinel:
  "cell_at m a = Some (s, Array_block (map Some xs @ Some z # junk)) \<Longrightarrow>
     load_slot m a (length xs) = Inr z"
  by (simp add: load_slot_def nth_append)

lemma load_type_cell:
  "cell_at m p = Some (s, Type_block (Some ty)) \<Longrightarrow> load_type m p = Inr ty"
  by (simp add: load_type_def)

lemma destroy_loop_trees:
  assumes IH: "\<And>t m f. t \<in> set ts2 \<Longrightarrow> repr P m t \<Longrightarrow> distinct (owned t) \<Longrightarrow> tree_fuel t \<le> f \<Longrightarrow>
      ffi_type_destroy P f m (root t) = Some (Inr (release m (owned t)))"
    and "cell_at m a = array_cell (ts1 @ ts2) junk"
    and "\<forall>t \<in> set ts2. repr P m t"
    and "distinct (concat (map owned ts2))"
    and "a \<notin> set (concat (map owned ts2))"
    and "1 + length ts2 + sum_list (map tree_fuel ts2) \<le> f"
  shows "destroy_loop P f m a (length ts1) = Some (Inr (release m (concat (map owned ts2))))"
  using assms
proof (induction ts2 arbitrary: ts1 m f)
  case Nil
  from Nil.prems(6) obtain f' where f: "f = Suc f'" by (cases f) auto
  from Nil.prems(2) have "load_slot m a (length ts1) = Inr 0"
    using load_slot_sentinel [of m a Malloced "map root ts1" 0 junk]
    by (simp add: array_cell_def)
  then show ?case by (simp add: f)
next
  case (Cons t rest)
  from Cons.prems(6) obtain f' where f: "f = Suc f'" by (cases f) auto
  have rt: "repr P m t" using Cons.prems(3) by simp
  have slot: "load_slot m a (length ts1) = Inr (root t)"
    using Cons.prems(2) load_slot_entry [of m a Malloced "map root (ts1 @ t # rest)" 0 junk "length ts1"]
    by (simp add: array_cell_def nth_append)
  have d: "ffi_type_destroy P f' m (root t) = Some (Inr (release m (owned t)))"
    using Cons.prems(1) [of t m f'] rt Cons.prems(4,6) by (simp add: f)
  let ?m1 = "release m (owned t)"
  have a1: "cell_at ?m1 a = array_cell ((ts1 @ [t]) @ rest) junk"
    using Cons.prems(2,5) by (simp add: cell_at_release)
  have r1: "\<forall>u \<in> set rest. repr P ?m1 u"
  proof
    fix u assume u: "u \<in> set rest"
    have "repr P (release m (concat (map owned [t]))) u"
    proof (rule repr_release)
      show "repr P m u" using Cons.prems(3) u by simp
      show "\<forall>v \<in> set [t]. repr P m v" using rt by simp
      show "set (owned u) \<inter> set (concat (map owned [t])) = {}"
        using Cons.prems(4) u by auto
    qed
    then show "repr P ?m1 u" by simp
  qed
  have "destroy_loop P f' ?m1 a (length (ts1 @ [t])) =
      Some (Inr (release ?m1 (concat (map owned rest))))"
  proof (rule Cons.IH [OF _ a1 r1])
    show "distinct (concat (map owned rest))" using Cons.prems(4) by simp
    show "a \<notin> set (concat (map owned rest))" using Cons.prems(5) by simp
    show "1 + length rest + sum_list (map tree_fuel rest) \<le> f'"
      using Cons.prems(6) by (simp add: f)
    show "\<And>t m f. t \<in> set rest \<Longrightarrow> repr P m t \<Longrightarrow> distinct (owned t) \<Longrightarrow> tree_fuel t \<le> f \<Longrightarrow>
      ffi_type_destroy P f m (root t) = Some (Inr (release m (owned t)))"
      using Cons.prems(1) by simp
  qed
  then show ?case
    using slot d repr_root_live [OF rt] by (simp add: f release_append)
qed

lemma destroy_tree:
  "repr P m t \<Longrightarrow> distinct (owned t) \<Longrightarrow> tree_fuel t \<le> f \<Longrightarrow>
     ffi_type_destroy P f m (root t) = Some (Inr (release m (owned t)))"
proof (induction t arbitrary: m f)
  case (Atom p s ty)
  from Atom.prems(3) obtain f' where f: "f = Suc f'" by (cases f) auto
  from Atom.prems(1) have "p \<noteq> 0" "load_type m p = Inr ty" "\<not> is_aggregate P ty"
    by (auto simp: load_type_cell dest: cell_at_live)
  then show ?case by (simp add: f is_aggregate_def)
next
  case (Agg p ty ts junk)
  let ?a = "elements ty"
  let ?os = "concat (map owned ts)"
  from Agg.prems(3) obtain f2 where f: "f = Suc (Suc f2)"
    by (cases f; cases "f - 1") auto
  from Agg.prems(1) have p: "p \<noteq> 0" "load_type m p = Inr ty" "is_aggregate P ty"
    and cp: "cell_at m p = Some (Malloced, Type_block (Some ty))"
    and ca: "cell_at m ?a = array_cell ts junk"
    by (auto simp: load_type_cell dest: cell_at_live)
  have loop: "destroy_loop P f2 m ?a (length ([]::tree list)) = Some (Inr (release m ?os))"
  proof (rule destroy_loop_trees)
    show "\<And>t m f. t \<in> set ts \<Longrightarrow> repr P m t \<Longrightarrow> distinct (owned t) \<Longrightarrow> tree_fuel t \<le> f \<Longrightarrow>
      ffi_type_destroy P f m (root t) = Some (Inr (release m (owned t)))"
      using Agg.IH by blast
    show "cell_at m ?a = array_cell ([] @ ts) junk" using ca by simp
    show "\<forall>t \<in> set ts. repr P m t" using Agg.prems(1) by simp
    show "distinct ?os" using Agg.prems(2) by simp
    show "?a \<notin> set ?os" using Agg.prems(2) by auto
    show "1 + length ts + sum_list (map tree_fuel ts) \<le> f2" using Agg.prems(3) by (simp add: f)
  qed
  have fa: "free (release m ?os) ?a = Inr (release (release m ?os) [?a])"
    using ca Agg.prems(2) by (intro free_release [of _ _ "Array_block (map (Some \<circ> root) ts @ Some 0 # junk)"])
      (auto simp: cell_at_release array_cell_def)
  have fp: "free (release (release m ?os) [?a]) p = Inr (release (release (release m ?os) [?a]) [p])"
    using cp Agg.prems(2) by (intro free_release [of _ _ "Type_block (Some ty)"])
      (auto simp: cell_at_release)
  have "release m (owned (Agg p ty ts junk)) = release (release (release m ?os) [?a]) [p]"
    using release_append [of m ?os "[?a, p]"] release_append [of "release m ?os" "[?a]" "[p]"]
    by simp
  then show ?case
    using p loop fa fp by (simp add: f is_aggregate_def)
qed

lemma malloc_ok:
  "0 < budget m \<Longrightarrow>
     malloc m b = (Suc (length (cells m)),
       m\<lparr>cells := cells m @ [Some (Malloced, b)], budget := budget m - 1\<rparr>)"
  by (simp add: malloc_def)

lemma cell_at_grow:
  "cell_at (m\<lparr>cells := cells m @ [c], budget := k\<rparr>) x =
     (if x = Suc (length (cells m)) then c else cell_at m x)"
  by (auto simp: cell_at_def nth_append split: nat.splits)

lemma store_type_ok:
  "cell_at m p = Some (s, Type_block old) \<Longrightarrow>
     store_type m p ty = Inr (put_cell m p (Some (s, Type_block (Some ty))))"
  by (simp add: store_type_def)

lemma store_slot_ok:
  "cell_at m a = Some (s, Array_block sl) \<Longrightarrow> i < length sl \<Longrightarrow>
     store_slot m a i v = Inr (put_cell m a (Some (s, Array_block (sl[i := Some v]))))"
  by (simp add: store_slot_def)

lemma cell_at_put_live:
  "cell_at m p = Some c0 \<Longrightarrow> cell_at (put_cell m p c) x = (if x = p then c else cell_at m x)"
  by (auto simp: cell_at_put_cell dest: cell_at_live)

lemma unat_size:
  assumes "(n + 1) * 8 < (2::nat) ^ 64"
  shows "unat (1 + of_nat n :: 64 word) = n + 1"
proof (rule of_nat_inverse)
  show "(word_of_nat (n + 1) :: 64 word) = 1 + of_nat n" by simp
  show "n + 1 < 2 ^ LENGTH(64)" using assms by simp
qed

lemma unat_bytes:
  assumes "(n + 1) * 8 < (2::nat) ^ 64"
  shows "unat ((1 + of_nat n :: 64 word) * sizeof_ptr) div unat sizeof_ptr = n + 1"
proof -
  have "unat ((1 + of_nat n :: 64 word) * 8) = (n + 1) * 8"
  proof (rule of_nat_inverse)
    show "(word_of_nat ((n + 1) * 8) :: 64 word) = (1 + of_nat n) * 8" by simp
    show "(n + 1) * 8 < 2 ^ LENGTH(64)" using assms by simp
  qed
  then show ?thesis by (simp add: sizeof_ptr_def)
qed

lemma scan_size_array:
  assumes "cell_at m a = Some (s, Array_block (map Some xs @ Some 0 # junk))"
    and "0 \<notin> set xs"
  shows "i \<le> length xs \<Longrightarrow> scan_size m a i sz = Inr (sz + of_nat (length xs - i))"
proof (induction "length xs - i" arbitrary: i sz)
  case 0
  then have "i = length xs" by simp
  then show ?case
    using load_slot_sentinel [OF assms(1)] by (subst scan_size.simps) simp
next
  case (Suc k)
  then have i: "i < length xs" by simp
  then have "xs ! i \<noteq> 0" using assms(2) by (metis nth_mem)
  moreover have "scan_size m a (Suc i) (sz + 1) = Inr (sz + 1 + of_nat (length xs - Suc i))"
    using Suc by (intro Suc.hyps(1)) auto
  moreover have "length xs - i = Suc (length xs - Suc i)" using i by simp
  ultimately show ?case
    using load_slot_entry [OF assms(1) i] by (subst scan_size.simps) (simp add: add.assoc)
qed

lemma clone_of_atoms:
  "clone_of t t' \<Longrightarrow> atoms t' = atoms t"
  "clones_of ts ts' \<Longrightarrow> (\<Union>t \<in> set ts'. atoms t) = (\<Union>t \<in> set ts. atoms t)"
  by (induction t t' and ts ts' rule: clone_of_clones_of.induct) auto

lemma clones_of_length: "clones_of ts ts' \<Longrightarrow> length ts' = length ts"
  by (induction ts arbitrary: ts') (auto elim: clones_of.elims)

lemma repr_nodes_live:
  assumes "repr P m t" and "x \<in> atoms t \<union> set (owned t)"
  shows "0 < x \<and> x \<le> length (cells m)"
  using assms repr_atoms_kind [of P m t x] repr_owned_kind [of P m t x]
  by (auto dest: cell_at_live)

lemma update_pending:
  "length cs = i \<Longrightarrow>
     (map Some cs @ replicate (Suc k) None)[i := Some v] = map Some (cs @ [v]) @ replicate k None"
  by (induction cs arbitrary: i) auto

lemma tree_fuel_pos: "1 \<le> tree_fuel t"
  by (cases t) auto

lemma clone_loop_trees:
  fixes sz :: "64 word"
  assumes IH: "\<And>t m. t \<in> set ts2 \<Longrightarrow> repr P m t \<Longrightarrow>
      \<exists>r. (\<forall>f \<ge> tree_fuel t. ffi_type_clone P f m (root t) = Some r) \<and> clone_result P m t r"
    and src: "cell_at m a = array_cell (ts1 @ ts2) junk"
    and dst: "cell_at m c =
      Some (Malloced, Array_block (map Some cs @ replicate (Suc (length ts2)) None))"
    and len: "length cs = length ts1"
    and sz: "unat sz = Suc (length ts1 + length ts2)"
    and ne: "a \<noteq> c"
    and rs: "\<forall>t \<in> set ts2. repr P m t \<and> c \<notin> atoms t \<union> set (owned t)"
  shows "\<exists>r.
      (\<forall>f \<ge> 2 + length ts2 + sum_list (map tree_fuel ts2).
          clone_loop P f m a c sz (length ts1) = Some r \<and>
          clone_each P f m c (length ts1) (map root ts2 @ [0]) = Some r) \<and>
      loop_result P m c cs ts2 r"
  using assms
proof (induction ts2 arbitrary: ts1 cs m)
  case Nil
  let ?i = "length ts1"
  define m' where
    "m' = put_cell m c (Some (Malloced, Array_block (map Some (cs @ [0]) @ replicate 0 None)))"
  have slot: "load_slot m a ?i = Inr 0"
    using Nil.prems(2) load_slot_sentinel [of m a Malloced "map root ts1" 0 junk]
    by (simp add: array_cell_def)
  have st: "store_slot m c ?i 0 = Inr m'"
    using store_slot_ok [OF Nil.prems(3), of ?i 0] update_pending [OF Nil.prems(4), of 0 0]
      Nil.prems(4) by (simp add: m'_def)
  have run: "clone_loop P f m a c sz ?i = Some (Inr m') \<and>
      clone_each P f m c ?i (map root [] @ [0]) = Some (Inr m')" if "2 \<le> f" for f
  proof -
    from that obtain f2 where f: "f = Suc (Suc f2)"
      by (cases f; cases "f - 1") auto
    show ?thesis using slot st Nil.prems(5) by (simp add: f)
  qed
  have "cell_at m' x = (if x = c then Some (Malloced, Array_block (map Some cs @ [Some 0]))
      else cell_at m x)" for x
    using cell_at_put_live [OF Nil.prems(3)] by (simp add: m'_def)
  then have "cloned_list P m m' c cs [] []"
    by (simp add: cloned_list_def m'_def)
  then have "loop_result P m c cs [] (Inr m')"
    by (auto simp: loop_result_def)
  with run show ?case
    by (intro exI [of _ "Inr m'"]) simp
next
  case (Cons t rest)
  let ?i = "length ts1"
  let ?L = "length (cells m)"
  let ?N = "2 + length rest + sum_list (map tree_fuel rest)"
  have rt: "repr P m t" and ct: "c \<notin> atoms t \<union> set (owned t)"
    using Cons.prems(7) by auto
  have cL: "c \<le> ?L" "a \<le> ?L"
    using Cons.prems(2,3) by (auto simp: array_cell_def dest: cell_at_live)
  have slot: "load_slot m a ?i = Inr (root t)"
    using Cons.prems(2)
      load_slot_entry [of m a Malloced "map root (ts1 @ t # rest)" 0 junk ?i]
    by (simp add: array_cell_def nth_append)
  have fuel: "tree_fuel t \<le> f' \<and> ?N \<le> f'"
    if "2 + length (t # rest) + sum_list (map tree_fuel (t # rest)) \<le> Suc f'" for f'
    using that tree_fuel_pos [of t] by simp
  from Cons.prems(1) [of t m] rt
  obtain r1 where
    run1: "\<And>f. tree_fuel t \<le> f \<Longrightarrow> ffi_type_clone P f m (root t) = Some r1"
    and res1: "clone_result P m t r1"
    by auto
  show ?case
  proof (cases r1)
    case (Inl e)
    with res1 have e: "e = Assertion_failed" "budget m < alloc_count t"
      by (auto simp: clone_result_def)
    have "clone_loop P f m a c sz ?i = Some (Inl e) \<and>
        clone_each P f m c ?i (map root (t # rest) @ [0]) = Some (Inl e)"
      if "2 + length (t # rest) + sum_list (map tree_fuel (t # rest)) \<le> f" for f
    proof -
      from that obtain f' where f: "f = Suc f'" by (cases f) auto
      from that fuel [of f'] have "tree_fuel t \<le> f'" "tree_fuel t \<le> f" by (auto simp: f)
      then show ?thesis
        using run1 [of f'] run1 [of f] slot Cons.prems(5) Inl by (simp add: f)
    qed
    moreover have "loop_result P m c cs (t # rest) (Inl e)"
      using e by (simp add: loop_result_def)
    ultimately show ?thesis by blast
  next
    case (Inr cm)
    with res1 obtain m1 t' where cm: "cm = (root t', m1)" and cl1: "cloned P m m1 t t'"
      by (cases cm) (auto simp: clone_result_def)
    from cl1 have t': "clone_of t t'" "repr P m1 t'" "distinct (owned t')"
      "set (owned t') = {?L <.. length (cells m1)}"
      "length (cells m1) = ?L + alloc_count t"
      and fr1: "\<And>x. x \<le> ?L \<Longrightarrow> cell_at m1 x = cell_at m x"
      and ot1: "freed m1 = freed m" "budget m1 + alloc_count t = budget m"
      by (auto simp: cloned_def)
    define m2 where "m2 = put_cell m1 c (Some (Malloced,
      Array_block (map Some (cs @ [root t']) @ replicate (Suc (length rest)) None)))"
    have dst1: "cell_at m1 c =
        Some (Malloced, Array_block (map Some cs @ replicate (Suc (Suc (length rest))) None))"
      using fr1 [OF cL(1)] Cons.prems(3) by simp
    have st: "store_slot m1 c ?i (root t') = Inr m2"
      using store_slot_ok [OF dst1, of ?i "root t'"]
        update_pending [OF Cons.prems(4), of "Suc (length rest)" "root t'"] Cons.prems(4)
      by (simp add: m2_def)
    have c2: "cell_at m2 x = (if x = c then Some (Malloced,
        Array_block (map Some (cs @ [root t']) @ replicate (Suc (length rest)) None))
        else cell_at m1 x)" for x
      using cell_at_put_live [OF dst1] by (simp add: m2_def)
    have o2: "length (cells m2) = length (cells m1)" "freed m2 = freed m1" "budget m2 = budget m1"
      by (simp_all add: m2_def)
    have "\<exists>r.
        (\<forall>f \<ge> ?N. clone_loop P f m2 a c sz (length (ts1 @ [t])) = Some r \<and>
            clone_each P f m2 c (length (ts1 @ [t])) (map root rest @ [0]) = Some r) \<and>
        loop_result P m2 c (cs @ [root t']) rest r"
    proof (rule Cons.IH)
      show "\<And>t m. t \<in> set rest \<Longrightarrow> repr P m t \<Longrightarrow>
        \<exists>r. (\<forall>f \<ge> tree_fuel t. ffi_type_clone P f m (root t) = Some r) \<and> clone_result P m t r"
        using Cons.prems(1) by simp
      show "cell_at m2 a = array_cell ((ts1 @ [t]) @ rest) junk"
        using Cons.prems(2,6) fr1 [OF cL(2)] by (simp add: c2)
      show "cell_at m2 c = Some (Malloced,
          Array_block (map Some (cs @ [root t']) @ replicate (Suc (length rest)) None))"
        by (simp add: c2)
      show "length (cs @ [root t']) = length (ts1 @ [t])"
        using Cons.prems(4) by simp
      show "unat sz = Suc (length (ts1 @ [t]) + length rest)"
        using Cons.prems(5) by simp
      show "a \<noteq> c" by fact
      show "\<forall>u \<in> set rest. repr P m2 u \<and> c \<notin> atoms u \<union> set (owned u)"
      proof
        fix u assume u: "u \<in> set rest"
        then have ru: "repr P m u" and cu: "c \<notin> atoms u \<union> set (owned u)"
          using Cons.prems(7) by auto
        have "repr P m2 u"
        proof (rule repr_frame [OF ru], rule ballI)
          fix x assume x: "x \<in> atoms u \<union> set (owned u)"
          then have "x \<le> ?L" "x \<noteq> c" using repr_nodes_live [OF ru x] cu by auto
          then show "cell_at m2 x = cell_at m x" by (simp add: c2 fr1)
        qed
        with cu show "repr P m2 u \<and> c \<notin> atoms u \<union> set (owned u)" by simp
      qed
    qed
    then obtain r2 where
      run2: "\<And>f. ?N \<le> f \<Longrightarrow> clone_loop P f m2 a c sz (Suc ?i) = Some r2 \<and>
        clone_each P f m2 c (Suc ?i) (map root rest @ [0]) = Some r2"
      and res2: "loop_result P m2 c (cs @ [root t']) rest r2"
      by auto
    have run: "clone_loop P f m a c sz ?i = Some r2 \<and>
        clone_each P f m c ?i (map root (t # rest) @ [0]) = Some r2"
      if "2 + length (t # rest) + sum_list (map tree_fuel (t # rest)) \<le> f" for f
    proof -
      from that obtain f' where f: "f = Suc f'" by (cases f) auto
      from that fuel [of f'] have "tree_fuel t \<le> f'" "?N \<le> f'" "tree_fuel t \<le> f" "?N \<le> f"
        by (auto simp: f)
      then show ?thesis
        using run1 [of f'] run1 [of f] run2 [of f'] run2 [of f] slot st Cons.prems(5) Inr cm
        by (simp add: f)
    qed
    have "loop_result P m c cs (t # rest) r2"
    proof (cases r2)
      case (Inl e)
      with res2 have "e = Assertion_failed" "budget m2 < sum_list (map alloc_count rest)"
        by (auto simp: loop_result_def)
      then show ?thesis using Inl ot1 o2 by (simp add: loop_result_def)
    next
      case (Inr m')
      with res2 obtain rest' where "cloned_list P m2 m' c (cs @ [root t']) rest rest'"
        by (auto simp: loop_result_def)
      then have cr: "clones_of rest rest'" and rr: "\<forall>t' \<in> set rest'. repr P m' t'"
        and dst': "cell_at m' c = Some (Malloced,
            Array_block (map Some (cs @ [root t']) @ map (Some \<circ> root) rest' @ [Some 0]))"
        and dr: "distinct (concat (map owned rest'))"
        and sr: "set (concat (map owned rest')) = {length (cells m1) <.. length (cells m')}"
        and lr: "length (cells m') = length (cells m1) + sum_list (map alloc_count rest)"
        and fr2: "\<And>x. x \<le> length (cells m1) \<Longrightarrow> x \<noteq> c \<Longrightarrow> cell_at m' x = cell_at m2 x"
        and ot2: "freed m' = freed m1" "budget m' + sum_list (map alloc_count rest) = budget m1"
        by (auto simp: cloned_list_def o2)
      have rt': "repr P m' t'"
      proof (rule repr_frame [OF t'(2)], rule ballI)
        fix x assume x: "x \<in> atoms t' \<union> set (owned t')"
        have "x \<noteq> c"
          using x ct cL(1) t'(4) clone_of_atoms(1) [OF t'(1)] by auto
        moreover have "x \<le> length (cells m1)"
          using repr_nodes_live [OF t'(2) x] by simp
        ultimately show "cell_at m' x = cell_at m1 x"
          using fr2 [of x] by (simp add: c2)
      qed
      have frame: "cell_at m' x = cell_at m x" if "x \<le> ?L" "x \<noteq> c" for x
        using that fr2 [of x] fr1 [of x] t'(5) by (simp add: c2)
      have "set (owned t') \<inter> set (concat (map owned rest')) = {}"
        unfolding t'(4) sr by auto
      moreover have "set (owned t') \<union> set (concat (map owned rest')) = {?L <.. length (cells m')}"
        unfolding t'(4) sr using t'(5) lr by auto
      ultimately have own: "distinct (concat (map owned (t' # rest')))"
        "set (concat (map owned (t' # rest'))) = {?L <.. length (cells m')}"
        using t'(3) dr by auto
      have "cloned_list P m m' c cs (t # rest) (t' # rest')"
        unfolding cloned_list_def
      proof (intro conjI)
        show "clones_of (t # rest) (t' # rest')" using t'(1) cr by simp
        show "\<forall>t'\<in>set (t' # rest'). repr P m' t'" using rt' rr by simp
        show "cell_at m' c = Some (Malloced,
          Array_block (map Some cs @ map (Some \<circ> root) (t' # rest') @ [Some 0]))"
          using dst' by simp
        show "distinct (concat (map owned (t' # rest')))" by (rule own)
        show "set (concat (map owned (t' # rest'))) = {?L <.. length (cells m')}" by (rule own)
        show "length (cells m') = ?L + sum_list (map alloc_count (t # rest))"
          using lr t'(5) by simp
        show "\<forall>x\<le>?L. x \<noteq> c \<longrightarrow> cell_at m' x = cell_at m x"
          using frame by blast
        show "freed m' = freed m" using ot1 ot2 by simp
        show "budget m' + sum_list (map alloc_count (t # rest)) = budget m"
          using ot1 ot2 by simp
      qed
      then show ?thesis using Inr by (auto simp: loop_result_def)
    qed
    with run show ?thesis by blast
  qed
qed

lemma malloc_fail: "budget m = 0 \<Longrightarrow> malloc m b = (0, m)"
  by (simp add: malloc_def)

lemma clone_array_trees:
  assumes IH: "\<And>t m. t \<in> set ts \<Longrightarrow> repr P m t \<Longrightarrow>
      \<exists>r. (\<forall>f \<ge> tree_fuel t. ffi_type_clone P f m (root t) = Some r) \<and> clone_result P m t r"
    and src: "cell_at m a = array_cell ts junk"
    and fits: "(length ts + 1 + length junk) * 8 < (2::nat) ^ 64"
    and rs: "\<forall>t \<in> set ts. repr P m t"
  shows "\<exists>r.
      (\<forall>f \<ge> 3 + length ts + sum_list (map tree_fuel ts). ffi_type_clone_array P f m a = Some r) \<and>
      array_result P m ts r"
proof -
  let ?L = "length (cells m)"
  let ?n = "length ts"
  let ?sz = "1 + of_nat ?n :: 64 word"
  let ?N = "2 + length ts + sum_list (map tree_fuel ts)"
  let ?b = "Array_block (replicate (Suc ?n) None)"
  have small: "(?n + 1) * 8 < (2::nat) ^ 64" using fits by simp
  have "0 \<notin> set (map root ts)" using rs repr_root_live by fastforce
  then have scan: "scan_size m a 0 1 = Inr ?sz"
    using scan_size_array [of m a Malloced "map root ts" junk 0 1] src
    by (simp add: array_cell_def)
  have blk: "Array_block (replicate (unat (?sz * sizeof_ptr) div unat sizeof_ptr) None) = ?b"
    using unat_bytes [OF small] by simp
  show ?thesis
  proof (cases "budget m = 0")
    case True
    have "ffi_type_clone_array P f m a = Some (Inl Assertion_failed)" if "Suc ?N \<le> f" for f
    proof -
      from that obtain f' where f: "f = Suc f'" by (cases f) auto
      show ?thesis using scan blk malloc_fail [OF True, of ?b] by (simp add: f)
    qed
    moreover have "array_result P m ts (Inl Assertion_failed)"
      using True by (simp add: array_result_def)
    ultimately show ?thesis by (intro exI [of _ "Inl Assertion_failed"]) simp
  next
    case False
    define m1 where "m1 = m\<lparr>cells := cells m @ [Some (Malloced, ?b)], budget := budget m - 1\<rparr>"
    have mal: "malloc m ?b = (Suc ?L, m1)"
      using False by (simp add: malloc_ok m1_def)
    have aL: "a \<le> ?L" using src by (auto simp: array_cell_def dest: cell_at_live)
    have c1: "cell_at m1 x = (if x = Suc ?L then Some (Malloced, ?b) else cell_at m x)" for x
      by (simp add: m1_def cell_at_grow)
    have o1: "length (cells m1) = Suc ?L" "freed m1 = freed m" "budget m1 = budget m - 1"
      by (simp_all add: m1_def)
    have "\<exists>r.
        (\<forall>f \<ge> ?N. clone_loop P f m1 a (Suc ?L) ?sz (length ([]::tree list)) = Some r \<and>
            clone_each P f m1 (Suc ?L) (length ([]::tree list)) (map root ts @ [0]) = Some r) \<and>
        loop_result P m1 (Suc ?L) [] ts r"
    proof (rule clone_loop_trees)
      show "\<And>t m. t \<in> set ts \<Longrightarrow> repr P m t \<Longrightarrow>
        \<exists>r. (\<forall>f \<ge> tree_fuel t. ffi_type_clone P f m (root t) = Some r) \<and> clone_result P m t r"
        by (rule IH)
      show "cell_at m1 a = array_cell ([] @ ts) junk"
        using src aL by (simp add: c1)
      show "cell_at m1 (Suc ?L) =
          Some (Malloced, Array_block (map Some [] @ replicate (Suc (length ts)) None))"
        by (simp add: c1)
      show "length ([]::addr list) = length ([]::tree list)" by simp
      show "unat ?sz = Suc (length ([]::tree list) + length ts)"
        using unat_size [OF small] by simp
      show "a \<noteq> Suc ?L" using aL by simp
      show "\<forall>t \<in> set ts. repr P m1 t \<and> Suc ?L \<notin> atoms t \<union> set (owned t)"
      proof
        fix t assume t: "t \<in> set ts"
        then have rt: "repr P m t" using rs by simp
        have le: "x \<le> ?L" if "x \<in> atoms t \<union> set (owned t)" for x
          using repr_nodes_live [OF rt that] by simp
        have "repr P m1 t"
        proof (rule repr_frame [OF rt], rule ballI)
          fix x assume "x \<in> atoms t \<union> set (owned t)"
          then show "cell_at m1 x = cell_at m x" using le [of x] by (simp add: c1)
        qed
        moreover have "Suc ?L \<notin> atoms t \<union> set (owned t)" using le [of "Suc ?L"] by auto
        ultimately show "repr P m1 t \<and> Suc ?L \<notin> atoms t \<union> set (owned t)" by simp
      qed
    qed
    then obtain r where
      run: "\<And>f. ?N \<le> f \<Longrightarrow> clone_loop P f m1 a (Suc ?L) ?sz 0 = Some r"
      and each: "\<And>f. ?N \<le> f \<Longrightarrow> clone_each P f m1 (Suc ?L) 0 (map root ts @ [0]) = Some r"
      and res: "loop_result P m1 (Suc ?L) [] ts r"
      by auto
    show ?thesis
    proof (cases r)
      case (Inl e)
      have "ffi_type_clone_array P f m a = Some (Inl e)" if "Suc ?N \<le> f" for f
      proof -
        from that obtain f' where f: "f = Suc f'" by (cases f) auto
        with that have "?N \<le> f'" by simp
        from run [OF this] show ?thesis using scan blk mal Inl by (simp add: f)
      qed
      moreover have "array_result P m ts (Inl e)"
        using res Inl False by (auto simp: array_result_def loop_result_def o1)
      ultimately show ?thesis by (intro exI [of _ "Inl e"]) simp
    next
      case (Inr m')
      have "ffi_type_clone_array P f m a = Some (Inr (Suc ?L, m'))" if "Suc ?N \<le> f" for f
      proof -
        from that obtain f' where f: "f = Suc f'" by (cases f) auto
        with that have "?N \<le> f'" by simp
        from run [OF this] show ?thesis using scan blk mal Inr by (simp add: f)
      qed
      moreover have "array_result P m ts (Inr (Suc ?L, m'))"
        using res Inr mal each by (auto simp: array_result_def loop_result_def)
      ultimately show ?thesis by (intro exI [of _ "Inr (Suc ?L, m')"]) simp
    qed
  qed
qed

lemma malloc_cases:
  "malloc m b = (c, m1) \<Longrightarrow> c \<noteq> 0 \<Longrightarrow>
     0 < budget m \<and> c = Suc (length (cells m)) \<and>
     m1 = m\<lparr>cells := cells m @ [Some (Malloced, b)], budget := budget m - 1\<rparr>"
  by (auto simp: malloc_def split: if_splits)

lemma array_result_Inr:
  assumes "array_result P m ts (Inr (c, m'))"
  shows "\<exists>ts'. c = Suc (length (cells m)) \<and> clones_of ts ts' \<and> (\<forall>t' \<in> set ts'. repr P m' t') \<and>
      cell_at m' c = array_cell ts' [] \<and>
      distinct (concat (map owned ts')) \<and>
      set (concat (map owned ts')) = {Suc (length (cells m)) <.. length (cells m')} \<and>
      length (cells m') = length (cells m) + 1 + sum_list (map alloc_count ts) \<and>
      (\<forall>x \<le> length (cells m). cell_at m' x = cell_at m x) \<and>
      freed m' = freed m \<and> budget m' + 1 + sum_list (map alloc_count ts) = budget m"
proof -
  let ?L = "length (cells m)"
  from assms obtain m1 ts' where c: "c = Suc ?L"
    and mal: "malloc m (Array_block (replicate (Suc (length ts)) None)) = (c, m1)"
    and cl: "cloned_list P m1 m' c [] ts ts'"
    by (auto simp: array_result_def)
  from malloc_cases [OF mal] c have b: "0 < budget m"
    and m1: "m1 = m\<lparr>cells := cells m @ [Some (Malloced, Array_block (replicate (Suc (length ts)) None))],
      budget := budget m - 1\<rparr>"
    by auto
  have c1: "cell_at m1 x = cell_at m x" if "x \<le> ?L" for x
    using that by (simp add: m1 cell_at_grow)
  have o1: "length (cells m1) = Suc ?L" "freed m1 = freed m" "budget m1 = budget m - 1"
    by (simp_all add: m1)
  from cl have "clones_of ts ts'" "\<forall>t' \<in> set ts'. repr P m' t'"
    "cell_at m' c = array_cell ts' []" "distinct (concat (map owned ts'))"
    "set (concat (map owned ts')) = {Suc ?L <.. length (cells m')}"
    "length (cells m') = ?L + 1 + sum_list (map alloc_count ts)"
    "freed m' = freed m" "budget m' + 1 + sum_list (map alloc_count ts) = budget m"
    and fr: "\<And>x. x \<le> Suc ?L \<Longrightarrow> x \<noteq> c \<Longrightarrow> cell_at m' x = cell_at m1 x"
    using b by (auto simp: cloned_list_def array_cell_def o1)
  moreover have "\<forall>x \<le> ?L. cell_at m' x = cell_at m x"
    using fr c1 c by simp
  ultimately show ?thesis using c by blast
qed

lemma clone_tree:
  "repr P m t \<Longrightarrow>
     \<exists>r. (\<forall>f \<ge> tree_fuel t. ffi_type_clone P f m (root t) = Some r) \<and> clone_result P m t r"
proof (induction t arbitrary: m)
  case (Atom p s ty)
  from Atom.prems(1) have p: "p \<noteq> 0" "load_type m p = Inr ty" "\<not> is_aggregate P ty"
    by (auto simp: load_type_cell dest: cell_at_live)
  have "ffi_type_clone P f m p = Some (Inr (p, m))" if "1 \<le> f" for f
  proof -
    from that obtain f' where "f = Suc f'" by (cases f) auto
    then show ?thesis using p by (simp add: is_aggregate_def)
  qed
  moreover have "cloned P m m (Atom p s ty) (Atom p s ty)"
    using Atom.prems(1) by (simp add: cloned_def)
  then have "clone_result P m (Atom p s ty) (Inr (p, m))"
    by (auto simp: clone_result_def intro: exI [of _ "Atom p s ty"])
  ultimately show ?case
    by (intro exI [of _ "Inr (p, m)"]) simp
next
  case (Agg p ty ts junk)
  let ?t = "Agg p ty ts junk"
  let ?L = "length (cells m)"
  let ?c = "Suc ?L"
  let ?a = "elements ty"
  let ?N = "3 + length ts + sum_list (map tree_fuel ts)"
  from Agg.prems(1) have p: "p \<noteq> 0" "load_type m p = Inr ty" "is_aggregate P ty"
    and cp: "cell_at m p = Some (Malloced, Type_block (Some ty))"
    and ca: "cell_at m ?a = array_cell ts junk"
    and fits: "(length ts + 1 + length junk) * 8 < (2::nat) ^ 64"
    and rs: "\<forall>t \<in> set ts. repr P m t"
    by (auto simp: load_type_cell dest: cell_at_live)
  have pL: "p \<le> ?L" "?a \<le> ?L"
    using cp ca by (auto simp: array_cell_def dest: cell_at_live)
  show ?case
  proof (cases "budget m = 0")
    case True
    have "ffi_type_clone P f m p = Some (Inl Assertion_failed)" if "tree_fuel ?t \<le> f" for f
    proof -
      from that obtain f' where f: "f = Suc f'" by (cases f) auto
      show ?thesis
        using p malloc_fail [OF True, of "Type_block None"] by (simp add: f is_aggregate_def)
    qed
    moreover have "clone_result P m ?t (Inl Assertion_failed)"
      using True by (simp add: clone_result_def)
    ultimately show ?thesis by (intro exI [of _ "Inl Assertion_failed"]) simp
  next
    case False
    define m1 where
      "m1 = m\<lparr>cells := cells m @ [Some (Malloced, Type_block None)], budget := budget m - 1\<rparr>"
    define m2 where "m2 = put_cell m1 ?c (Some (Malloced, Type_block (Some ty)))"
    have mal: "malloc m (Type_block None) = (?c, m1)"
      using False by (simp add: malloc_ok m1_def)
    have c1: "cell_at m1 x = (if x = ?c then Some (Malloced, Type_block None) else cell_at m x)"
      for x
      by (simp add: cell_at_grow m1_def)
    have c1c: "cell_at m1 ?c = Some (Malloced, Type_block None)"
      by (simp add: c1)
    have c2: "cell_at m2 x = (if x = ?c then Some (Malloced, Type_block (Some ty)) else cell_at m x)"
      for x
      using cell_at_put_live [OF c1c] by (simp add: c1 m2_def)
    have cpy: "memcpy_type m1 ?c p = Inr m2"
      using cp pL store_type_ok [OF c1c, of ty]
      by (simp add: memcpy_type_def load_type_def c1 m2_def)
    have ld2: "load_type m2 p = Inr ty"
      using cp pL by (simp add: load_type_def c2)
    have o2: "length (cells m2) = ?c" "freed m2 = freed m" "budget m2 = budget m - 1"
      by (simp_all add: m2_def m1_def)
    have "\<exists>r. (\<forall>f \<ge> ?N. ffi_type_clone_array P f m2 ?a = Some r) \<and> array_result P m2 ts r"
    proof (rule clone_array_trees)
      show "\<And>t m. t \<in> set ts \<Longrightarrow> repr P m t \<Longrightarrow>
        \<exists>r. (\<forall>f \<ge> tree_fuel t. ffi_type_clone P f m (root t) = Some r) \<and> clone_result P m t r"
        using Agg.IH by blast
      show "cell_at m2 ?a = array_cell ts junk" using ca pL by (simp add: c2)
      show "(length ts + 1 + length junk) * 8 < (2::nat) ^ 64" by fact
      show "\<forall>t \<in> set ts. repr P m2 t"
      proof
        fix t assume "t \<in> set ts"
        then have rt: "repr P m t" using rs by simp
        show "repr P m2 t"
        proof (rule repr_frame [OF rt], rule ballI)
          fix x assume "x \<in> atoms t \<union> set (owned t)"
          from repr_nodes_live [OF rt this] show "cell_at m2 x = cell_at m x"
            by (simp add: c2)
        qed
      qed
    qed
    then obtain r2 where
      run: "\<And>f. ?N \<le> f \<Longrightarrow> ffi_type_clone_array P f m2 ?a = Some r2"
      and res: "array_result P m2 ts r2"
      by auto
    show ?thesis
    proof (cases r2)
      case (Inl e)
      have "ffi_type_clone P f m p = Some (Inl e)" if "tree_fuel ?t \<le> f" for f
      proof -
        from that obtain f' where f: "f = Suc f'" by (cases f) auto
        with that have "?N \<le> f'" by simp
        from run [OF this] show ?thesis
          using p mal cpy ld2 Inl by (simp add: f is_aggregate_def)
      qed
      moreover have "clone_result P m ?t (Inl e)"
        using res Inl False by (auto simp: clone_result_def array_result_def o2)
      ultimately show ?thesis by (intro exI [of _ "Inl e"]) simp
    next
      case (Inr am)
      obtain arr m3 where am: "am = (arr, m3)" by (cases am)
      from array_result_Inr [OF res [unfolded Inr am]] obtain ts' where
        arr: "arr = Suc ?c"
        and cl: "clones_of ts ts'" and rr: "\<forall>t' \<in> set ts'. repr P m3 t'"
        and dst: "cell_at m3 (Suc ?c) = array_cell ts' []"
        and dr: "distinct (concat (map owned ts'))"
        and sr: "set (concat (map owned ts')) = {Suc ?c <.. length (cells m3)}"
        and lr: "length (cells m3) = Suc ?c + sum_list (map alloc_count ts)"
        and fr: "\<And>x. x \<le> ?c \<Longrightarrow> cell_at m3 x = cell_at m2 x"
        and ot: "freed m3 = freed m" "budget m3 + 1 + sum_list (map alloc_count ts) = budget m - 1"
        by (auto simp: o2)
      let ?ty' = "ty\<lparr>elements := Suc ?c\<rparr>"
      define m4 where "m4 = put_cell m3 ?c (Some (Malloced, Type_block (Some ?ty')))"
      let ?t' = "Agg ?c ?ty' ts' []"
      have c3: "cell_at m3 ?c = Some (Malloced, Type_block (Some ty))"
        using fr [of ?c] by (simp add: c2)
      have c4: "cell_at m4 x =
          (if x = ?c then Some (Malloced, Type_block (Some ?ty')) else cell_at m3 x)" for x
        using cell_at_put_live [OF c3] by (simp add: m4_def)
      have o4: "length (cells m4) = length (cells m3)" "freed m4 = freed m3" "budget m4 = budget m3"
        by (simp_all add: m4_def)
      have sto: "store_elements m3 ?c (Suc ?c) = Inr m4"
        using c3 store_type_ok [OF c3, of ?ty']
        by (simp add: store_elements_def load_type_def m4_def)
      have all: "ffi_type_clone P f m p = Some (Inr (?c, m4))" if "tree_fuel ?t \<le> f" for f
      proof -
        from that obtain f' where f: "f = Suc f'" by (cases f) auto
        with that have "?N \<le> f'" by simp
        from run [OF this] show ?thesis
          using p mal cpy ld2 sto Inr am arr by (simp add: f is_aggregate_def)
      qed
      have kids: "repr P m4 u" if u: "u \<in> set ts'" for u
      proof -
        have ru: "repr P m3 u" using rr u by simp
        show ?thesis
        proof (rule repr_frame [OF ru], rule ballI)
          fix x assume x: "x \<in> atoms u \<union> set (owned u)"
          have "x \<noteq> ?c"
          proof
            assume xc: "x = ?c"
            have "?c \<notin> set (owned u)"
            proof
              assume "?c \<in> set (owned u)"
              with u have "?c \<in> set (concat (map owned ts'))" by auto
              with sr show False by simp
            qed
            with x xc have "?c \<in> atoms u" by simp
            with u have "?c \<in> (\<Union>t \<in> set ts'. atoms t)" by auto
            with clone_of_atoms(2) [OF cl] obtain t where t: "t \<in> set ts" "?c \<in> atoms t" by auto
            with rs have "repr P m t" by simp
            from repr_nodes_live [OF this, of ?c] t show False by simp
          qed
          then show "cell_at m4 x = cell_at m3 x" by (simp add: c4)
        qed
      qed
      have "cloned P m m4 ?t ?t'"
        unfolding cloned_def
      proof (intro conjI)
        show "clone_of ?t ?t'" using cl by simp
        show "repr P m4 ?t'"
          using p(3) dst kids fits clones_of_length [OF cl]
          by (simp add: c4 is_aggregate_def)
        have "set (concat (map owned ts')) \<inter> {Suc ?c, ?c} = {}" unfolding sr by auto
        then show "distinct (owned ?t')" using dr by simp
        show "set (owned ?t') = {?L <.. length (cells m4)}"
          using sr lr by (auto simp: o4)
        show "length (cells m4) = ?L + alloc_count ?t"
          using lr by (simp add: o4)
        show "\<forall>x\<le>?L. cell_at m4 x = cell_at m x"
          using fr by (simp add: c4 c2)
        show "freed m4 = freed m" using ot by (simp add: o4)
        show "budget m4 + alloc_count ?t = budget m"
          using ot False by (simp add: o4)
      qed
      then have "clone_result P m ?t (Inr (?c, m4))"
        by (auto simp: clone_result_def intro: exI [of _ ?t'])
      with all show ?thesis
        by (intro exI [of _ "Inr (?c, m4)"]) simp
    qed
  qed
qed

lemma destroy_each_trees:
  assumes "\<forall>t \<in> set ts. repr P m t" and "distinct (concat (map owned ts))"
    and "\<forall>t \<in> set ts. tree_fuel t \<le> f"
  shows "destroy_each P f m (map root ts) = Some (Inr (release m (concat (map owned ts))))"
  using assms
proof (induction ts arbitrary: m)
  case Nil
  show ?case by simp
next
  case (Cons t rest)
  have rt: "repr P m t" using Cons.prems(1) by simp
  have d: "ffi_type_destroy P f m (root t) = Some (Inr (release m (owned t)))"
    using destroy_tree [OF rt] Cons.prems(2,3) by simp
  have "\<forall>u \<in> set rest. repr P (release m (owned t)) u"
  proof
    fix u assume u: "u \<in> set rest"
    have "repr P (release m (concat (map owned [t]))) u"
    proof (rule repr_release)
      show "repr P m u" using Cons.prems(1) u by simp
      show "\<forall>v \<in> set [t]. repr P m v" using rt by simp
      show "set (owned u) \<inter> set (concat (map owned [t])) = {}"
        using Cons.prems(2) u by auto
    qed
    then show "repr P (release m (owned t)) u" by simp
  qed
  then have "destroy_each P f (release m (owned t)) (map root rest) =
      Some (Inr (release (release m (owned t)) (concat (map owned rest))))"
    using Cons.prems(2,3) by (intro Cons.IH) auto
  then show ?case using d by (simp add: release_append)
qed

lemma destroy_array_trees:
  assumes src: "cell_at m a = array_cell ts junk"
    and rs: "\<forall>t \<in> set ts. repr P m t"
    and dist: "distinct (concat (map owned ts) @ [a])"
    and fuel: "2 + length ts + sum_list (map tree_fuel ts) \<le> f"
  shows "ffi_type_destroy_array P f m a = Some (Inr (release m (concat (map owned ts) @ [a])))"
proof -
  let ?os = "concat (map owned ts)"
  from fuel obtain f' where f: "f = Suc f'" by (cases f) auto
  have loop: "destroy_loop P f' m a (length ([]::tree list)) = Some (Inr (release m ?os))"
  proof (rule destroy_loop_trees)
    show "\<And>t m f. t \<in> set ts \<Longrightarrow> repr P m t \<Longrightarrow> distinct (owned t) \<Longrightarrow> tree_fuel t \<le> f \<Longrightarrow>
      ffi_type_destroy P f m (root t) = Some (Inr (release m (owned t)))"
      by (rule destroy_tree)
    show "cell_at m a = array_cell ([] @ ts) junk" using src by simp
    show "\<forall>t \<in> set ts. repr P m t" by fact
    show "distinct ?os" using dist by simp
    show "a \<notin> set ?os" using dist by simp
    show "1 + length ts + sum_list (map tree_fuel ts) \<le> f'" using fuel by (simp add: f)
  qed
  have "free (release m ?os) a = Inr (release (release m ?os) [a])"
    using src dist
    by (intro free_release [of _ _ "Array_block (map (Some \<circ> root) ts @ Some 0 # junk)"])
      (auto simp: cell_at_release array_cell_def)
  with loop show ?thesis by (simp add: f release_append)
qed

lemma decayed_refl: "decayed m m"
  by (simp add: decayed_def)

lemma decayed_trans: "decayed m m1 \<Longrightarrow> decayed m1 m2 \<Longrightarrow> decayed m m2"
  unfolding decayed_def by metis

lemma decayed_free: "free m p = Inr m' \<Longrightarrow> decayed m m'"
  by (auto simp: free_def decayed_def cell_at_put_cell
      split: if_splits option.splits storage.splits prod.splits)

lemma load_type_decayed:
  assumes "cell_at m0 p = Some (s, Type_block (Some ty))" and "decayed m0 m"
  shows "load_type m p = Inr ty \<or> load_type m p = Inl Invalid_pointer"
proof -
  from assms(2) have "cell_at m p = cell_at m0 p \<or> cell_at m p = None"
    by (simp add: decayed_def)
  with assms(1) show ?thesis by (auto simp: load_type_def)
qed

lemma load_slot_decayed:
  assumes "cell_at m0 a = Some (s, Array_block (map Some xs @ Some z # junk))" and "decayed m0 m"
    and "i \<le> length xs"
  shows "load_slot m a i = Inr ((xs @ [z]) ! i) \<or> load_slot m a i = Inl Invalid_pointer"
proof -
  from assms(2) have "cell_at m a = cell_at m0 a \<or> cell_at m a = None"
    by (simp add: decayed_def)
  with assms(1,3) show ?thesis by (auto simp: load_slot_def nth_append)
qed

lemma destroy_loop_total:
  assumes IH: "\<And>t m. t \<in> set ts2 \<Longrightarrow> decayed m0 m \<Longrightarrow>
      \<exists>r. (\<forall>f \<ge> tree_fuel t. ffi_type_destroy P f m (root t) = Some r) \<and>
        (\<forall>m'. r = Inr m' \<longrightarrow> decayed m m')"
    and "cell_at m0 a = array_cell (ts1 @ ts2) junk"
    and "\<forall>t \<in> set ts2. root t \<noteq> 0"
    and "decayed m0 m"
  shows "\<exists>r. (\<forall>f \<ge> 1 + length ts2 + sum_list (map tree_fuel ts2).
        destroy_loop P f m a (length ts1) = Some r) \<and>
      (\<forall>m'. r = Inr m' \<longrightarrow> decayed m m')"
  using assms
proof (induction ts2 arbitrary: ts1 m)
  case Nil
  from load_slot_decayed [of m0 a Malloced "map root ts1" 0 junk m "length ts1"] Nil.prems(2,4)
  have "load_slot m a (length ts1) = Inr 0 \<or> load_slot m a (length ts1) = Inl Invalid_pointer"
    by (simp add: array_cell_def nth_append)
  then show ?case
  proof
    assume s: "load_slot m a (length ts1) = Inr 0"
    have "destroy_loop P f m a (length ts1) = Some (Inr m)" if "1 \<le> f" for f
    proof -
      from that obtain f' where "f = Suc f'" by (cases f) auto
      then show ?thesis using s by simp
    qed
    then show ?thesis by (intro exI [of _ "Inr m"]) (simp add: decayed_refl)
  next
    assume s: "load_slot m a (length ts1) = Inl Invalid_pointer"
    have "destroy_loop P f m a (length ts1) = Some (Inl Invalid_pointer)" if "1 \<le> f" for f
    proof -
      from that obtain f' where "f = Suc f'" by (cases f) auto
      then show ?thesis using s by simp
    qed
    then show ?thesis by (intro exI [of _ "Inl Invalid_pointer"]) simp
  qed
next
  case (Cons t rest)
  let ?i = "length ts1"
  let ?N = "1 + length rest + sum_list (map tree_fuel rest)"
  from load_slot_decayed [of m0 a Malloced "map root (ts1 @ t # rest)" 0 junk m ?i] Cons.prems(2,4)
  have "load_slot m a ?i = Inr (root t) \<or> load_slot m a ?i = Inl Invalid_pointer"
    by (simp add: array_cell_def nth_append)
  then show ?case
  proof
    assume s: "load_slot m a ?i = Inl Invalid_pointer"
    have "destroy_loop P f m a ?i = Some (Inl Invalid_pointer)" if "1 \<le> f" for f
    proof -
      from that obtain f' where "f = Suc f'" by (cases f) auto
      then show ?thesis using s by simp
    qed
    then show ?thesis by (intro exI [of _ "Inl Invalid_pointer"]) simp
  next
    assume s: "load_slot m a ?i = Inr (root t)"
    have nz: "root t \<noteq> 0" using Cons.prems(3) by simp
    from Cons.prems(1) [of t m] Cons.prems(4) obtain r1 where
      run1: "\<And>f. tree_fuel t \<le> f \<Longrightarrow> ffi_type_destroy P f m (root t) = Some r1"
      and d1: "\<And>m'. r1 = Inr m' \<Longrightarrow> decayed m m'"
      by auto
    show ?thesis
    proof (cases r1)
      case (Inl e)
      have "destroy_loop P f m a ?i = Some (Inl e)"
        if "1 + length (t # rest) + sum_list (map tree_fuel (t # rest)) \<le> f" for f
      proof -
        from that obtain f' where f: "f = Suc f'" by (cases f) auto
        with that have "tree_fuel t \<le> f'" by simp
        from run1 [OF this] show ?thesis using s nz Inl by (simp add: f)
      qed
      then show ?thesis by (intro exI [of _ "Inl e"]) simp
    next
      case (Inr m1)
      have dm1: "decayed m m1" using d1 Inr by simp
      have "\<exists>r. (\<forall>f \<ge> ?N. destroy_loop P f m1 a (length (ts1 @ [t])) = Some r) \<and>
          (\<forall>m'. r = Inr m' \<longrightarrow> decayed m1 m')"
      proof (rule Cons.IH)
        show "\<And>t m. t \<in> set rest \<Longrightarrow> decayed m0 m \<Longrightarrow>
          \<exists>r. (\<forall>f \<ge> tree_fuel t. ffi_type_destroy P f m (root t) = Some r) \<and>
            (\<forall>m'. r = Inr m' \<longrightarrow> decayed m m')"
          using Cons.prems(1) by simp
        show "cell_at m0 a = array_cell ((ts1 @ [t]) @ rest) junk" using Cons.prems(2) by simp
        show "\<forall>t \<in> set rest. root t \<noteq> 0" using Cons.prems(3) by simp
        show "decayed m0 m1" using decayed_trans [OF Cons.prems(4) dm1] .
      qed
      then obtain r2 where
        run2: "\<And>f. ?N \<le> f \<Longrightarrow> destroy_loop P f m1 a (Suc ?i) = Some r2"
        and d2: "\<And>m'. r2 = Inr m' \<Longrightarrow> decayed m1 m'"
        by auto
      have "destroy_loop P f m a ?i = Some r2"
        if "1 + length (t # rest) + sum_list (map tree_fuel (t # rest)) \<le> f" for f
      proof -
        from that obtain f' where f: "f = Suc f'" by (cases f) auto
        with that tree_fuel_pos [of t] have "tree_fuel t \<le> f'" "?N \<le> f'" by auto
        then show ?thesis using run1 [of f'] run2 [of f'] s nz Inr by (simp add: f)
      qed
      moreover have "decayed m m'" if "r2 = Inr m'" for m'
        using decayed_trans [OF dm1 d2 [OF that]] .
      ultimately show ?thesis by (intro exI [of _ r2]) simp
    qed
  qed
qed

lemma destroy_total:
  "repr P m0 t \<Longrightarrow> decayed m0 m \<Longrightarrow>
     \<exists>r. (\<forall>f \<ge> tree_fuel t. ffi_type_destroy P f m (root t) = Some r) \<and>
       (\<forall>m'. r = Inr m' \<longrightarrow> decayed m m')"
proof (induction t arbitrary: m)
  case (Atom p s ty)
  from Atom.prems(1) have p: "p \<noteq> 0" "cell_at m0 p = Some (s, Type_block (Some ty))"
    "\<not> is_aggregate P ty"
    by (auto dest: cell_at_live)
  from load_type_decayed [OF p(2) Atom.prems(2)] show ?case
  proof
    assume l: "load_type m p = Inr ty"
    have "ffi_type_destroy P f m p = Some (Inr m)" if "1 \<le> f" for f
    proof -
      from that obtain f' where "f = Suc f'" by (cases f) auto
      then show ?thesis using p l by (simp add: is_aggregate_def)
    qed
    then show ?thesis by (intro exI [of _ "Inr m"]) (simp add: decayed_refl)
  next
    assume l: "load_type m p = Inl Invalid_pointer"
    have "ffi_type_destroy P f m p = Some (Inl Invalid_pointer)" if "1 \<le> f" for f
    proof -
      from that obtain f' where "f = Suc f'" by (cases f) auto
      then show ?thesis using p l by simp
    qed
    then show ?thesis by (intro exI [of _ "Inl Invalid_pointer"]) simp
  qed
next
  case (Agg p ty ts junk)
  let ?t = "Agg p ty ts junk"
  let ?a = "elements ty"
  from Agg.prems(1) have p: "p \<noteq> 0" "cell_at m0 p = Some (Malloced, Type_block (Some ty))"
    "is_aggregate P ty"
    and ca: "cell_at m0 ?a = array_cell ts junk"
    and rs: "\<forall>t \<in> set ts. repr P m0 t"
    by (auto dest: cell_at_live)
  from load_type_decayed [OF p(2) Agg.prems(2)] show ?case
  proof
    assume l: "load_type m p = Inl Invalid_pointer"
    have "ffi_type_destroy P f m p = Some (Inl Invalid_pointer)" if "1 \<le> f" for f
    proof -
      from that obtain f' where "f = Suc f'" by (cases f) auto
      then show ?thesis using p l by simp
    qed
    then show ?thesis by (intro exI [of _ "Inl Invalid_pointer"]) simp
  next
    assume l: "load_type m p = Inr ty"
    have "\<exists>r. (\<forall>f \<ge> 1 + length ts + sum_list (map tree_fuel ts).
          destroy_loop P f m ?a (length ([]::tree list)) = Some r) \<and>
        (\<forall>m'. r = Inr m' \<longrightarrow> decayed m m')"
    proof (rule destroy_loop_total)
      show "\<And>t m. t \<in> set ts \<Longrightarrow> decayed m0 m \<Longrightarrow>
        \<exists>r. (\<forall>f \<ge> tree_fuel t. ffi_type_destroy P f m (root t) = Some r) \<and>
          (\<forall>m'. r = Inr m' \<longrightarrow> decayed m m')"
        using Agg.IH rs by blast
      show "cell_at m0 ?a = array_cell ([] @ ts) junk" using ca by simp
      show "\<forall>t \<in> set ts. root t \<noteq> 0" using rs repr_root_live by blast
      show "decayed m0 m" by fact
    qed
    then obtain r1 where
      run1: "\<And>f. 1 + length ts + sum_list (map tree_fuel ts) \<le> f \<Longrightarrow>
        destroy_loop P f m ?a 0 = Some r1"
      and d1: "\<And>m'. r1 = Inr m' \<Longrightarrow> decayed m m'"
      by auto
    define r2 where "r2 = (case r1 of Inl e \<Rightarrow> Inl e | Inr m1 \<Rightarrow> free m1 ?a)"
    define r3 where "r3 = (case r2 of Inl e \<Rightarrow> Inl e | Inr m2 \<Rightarrow> free m2 p)"
    have d2: "decayed m m'" if "r2 = Inr m'" for m'
      using that d1 decayed_free decayed_trans
      by (cases r1) (auto simp: r2_def)
    have d3: "decayed m m'" if "r3 = Inr m'" for m'
      using that d2 decayed_free decayed_trans
      by (cases r2) (auto simp: r3_def)
    have "ffi_type_destroy P f m p = Some r3" if "tree_fuel ?t \<le> f" for f
    proof -
      from that obtain f2 where f: "f = Suc (Suc f2)"
        by (cases f; cases "f - 1") auto
      with that have "1 + length ts + sum_list (map tree_fuel ts) \<le> f2" by simp
      from run1 [OF this] have "ffi_type_destroy_array P (Suc f2) m ?a = Some r2"
        by (cases r1) (simp_all add: r2_def)
      then show ?thesis
        using p l by (cases r2) (simp_all add: f r3_def is_aggregate_def)
    qed
    with d3 show ?thesis by (intro exI [of _ r3]) simp
  qed
qed

lemma destroy_array_total:
  assumes "cell_at m a = array_cell ts junk" and "\<forall>t \<in> set ts. repr P m t"
  shows "\<exists>r. \<forall>f \<ge> 2 + length ts + sum_list (map tree_fuel ts).
      ffi_type_destroy_array P f m a = Some r"
proof -
  have "\<exists>r. (\<forall>f \<ge> 1 + length ts + sum_list (map tree_fuel ts).
        destroy_loop P f m a (length ([]::tree list)) = Some r) \<and>
      (\<forall>m'. r = Inr m' \<longrightarrow> decayed m m')"
  proof (rule destroy_loop_total)
    show "\<And>t m'. t \<in> set ts \<Longrightarrow> decayed m m' \<Longrightarrow>
      \<exists>r. (\<forall>f \<ge> tree_fuel t. ffi_type_destroy P f m' (root t) = Some r) \<and>
        (\<forall>m''. r = Inr m'' \<longrightarrow> decayed m' m'')"
      using destroy_total assms(2) by blast
    show "cell_at m a = array_cell ([] @ ts) junk" using assms(1) by simp
    show "\<forall>t \<in> set ts. root t \<noteq> 0" using assms(2) repr_root_live by blast
    show "decayed m m" by (rule decayed_refl)
  qed
  then obtain r1 where
    run1: "\<And>f. 1 + length ts + sum_list (map tree_fuel ts) \<le> f \<Longrightarrow>
      destroy_loop P f m a 0 = Some r1"
    by auto
  define r2 where "r2 = (case r1 of Inl e \<Rightarrow> Inl e | Inr m1 \<Rightarrow> free m1 a)"
  have "ffi_type_destroy_array P f m a = Some r2"
    if "2 + length ts + sum_list (map tree_fuel ts) \<le> f" for f
  proof -
    from that obtain f' where f: "f = Suc f'" by (cases f) auto
    with that have "1 + length ts + sum_list (map tree_fuel ts) \<le> f'" by simp
    from run1 [OF this] show ?thesis by (cases r1) (simp_all add: f r2_def)
  qed
  then show ?thesis by blast
qed

section \<open>Facts about clones and released blocks\<close>

lemma count_list_distinct: "distinct xs \<Longrightarrow> x \<in> set xs \<Longrightarrow> count_list xs x = 1"
  by (induction xs) (auto simp: count_list_0_iff)

lemma count_list_append_once:
  "distinct ys \<Longrightarrow> x \<in> set ys \<Longrightarrow> count_list (xs @ ys) x = count_list xs x + 1"
  by (simp add: count_list_distinct)

lemma clones_of_nth: "clones_of ts ts' \<Longrightarrow> i < length ts \<Longrightarrow> clone_of (ts ! i) (ts' ! i)"
proof (induction ts arbitrary: ts' i)
  case Nil
  then show ?case by simp
next
  case (Cons t ts)
  then obtain u us where "ts' = u # us" by (cases ts') auto
  with Cons show ?case by (cases i) auto
qed

lemma clone_of_Agg:
  assumes "clone_of (Agg p ty ts junk) t'"
  obtains p' ty' ts' where "t' = Agg p' ty' ts' []" "size_fld ty' = size_fld ty"
    "alignment ty' = alignment ty" "type ty' = type ty" "clones_of ts ts'"
  using assms by (cases t') auto

lemma clone_of_measures:
  "clone_of t t' \<Longrightarrow> tree_fuel t' = tree_fuel t \<and> alloc_count t' = alloc_count t"
  "clones_of ts ts' \<Longrightarrow> length ts' = length ts \<and>
     sum_list (map tree_fuel ts') = sum_list (map tree_fuel ts) \<and>
     sum_list (map alloc_count ts') = sum_list (map alloc_count ts)"
  by (induction t t' and ts ts' rule: clone_of_clones_of.induct) auto

lemma clone_tree_ok:
  assumes "repr P m t" and "alloc_count t \<le> budget m"
  shows "\<exists>m' t'. (\<forall>f \<ge> tree_fuel t. ffi_type_clone P f m (root t) = Some (Inr (root t', m'))) \<and>
      cloned P m m' t t'"
proof -
  from clone_tree [OF assms(1)] obtain r where
    run: "\<forall>f \<ge> tree_fuel t. ffi_type_clone P f m (root t) = Some r"
    and res: "clone_result P m t r"
    by auto
  show ?thesis
  proof (cases r)
    case (Inl e)
    with res assms(2) show ?thesis by (simp add: clone_result_def)
  next
    case (Inr cm)
    with res obtain t' m' where "cm = (root t', m')" "cloned P m m' t t'"
      by (cases cm) (auto simp: clone_result_def)
    with run Inr show ?thesis by auto
  qed
qed

lemma clone_array_ok:
  assumes "cell_at m a = array_cell ts junk"
    and "(length ts + 1 + length junk) * 8 < (2::nat) ^ 64"
    and "\<forall>t \<in> set ts. repr P m t"
    and "1 + sum_list (map alloc_count ts) \<le> budget m"
  shows "\<exists>c m'. (\<forall>f \<ge> 3 + length ts + sum_list (map tree_fuel ts).
        ffi_type_clone_array P f m a = Some (Inr (c, m'))) \<and>
      array_result P m ts (Inr (c, m'))"
proof -
  have "\<exists>r. (\<forall>f \<ge> 3 + length ts + sum_list (map tree_fuel ts).
        ffi_type_clone_array P f m a = Some r) \<and> array_result P m ts r"
    using assms(1-3) by (intro clone_array_trees) (auto intro: clone_tree)
  then obtain r where
    run: "\<forall>f \<ge> 3 + length ts + sum_list (map tree_fuel ts). ffi_type_clone_array P f m a = Some r"
    and res: "array_result P m ts r"
    by auto
  show ?thesis
  proof (cases r)
    case (Inl e)
    with res assms(4) show ?thesis by (simp add: array_result_def)
  next
    case (Inr cm)
    then obtain c m' where "r = Inr (c, m')" by (cases cm) auto
    with run res show ?thesis by auto
  qed
qed

lemma cloned_fresh:
  assumes "cloned P m m' t t'" and "repr P m t"
  shows "set (owned t') \<inter> (atoms t \<union> set (owned t)) = {}"
    and "\<forall>x \<in> set (owned t'). cell_at m x = None"
    and "\<forall>x. x \<notin> set (owned t') \<longrightarrow> cell_at m' x = cell_at m x"
    and "repr P m' t"
proof -
  let ?L = "length (cells m)"
  from assms(1) have own: "set (owned t') = {?L <.. length (cells m')}"
    and fr: "\<And>x. x \<le> ?L \<Longrightarrow> cell_at m' x = cell_at m x"
    by (auto simp: cloned_def)
  have live: "x \<le> ?L" if "x \<in> atoms t \<union> set (owned t)" for x
    using repr_nodes_live [OF assms(2) that] by simp
  show "set (owned t') \<inter> (atoms t \<union> set (owned t)) = {}"
    using live own by fastforce
  show "\<forall>x \<in> set (owned t'). cell_at m x = None"
    using own by (auto intro: cell_at_beyond)
  show "\<forall>x. x \<notin> set (owned t') \<longrightarrow> cell_at m' x = cell_at m x"
  proof (intro allI impI)
    fix x assume "x \<notin> set (owned t')"
    with own have "x \<le> ?L \<or> length (cells m') < x" by auto
    then show "cell_at m' x = cell_at m x"
    proof
      assume "x \<le> ?L" then show ?thesis by (rule fr)
    next
      assume x: "length (cells m') < x"
      moreover from assms(1) have "?L \<le> length (cells m')" by (simp add: cloned_def)
      ultimately show ?thesis by (simp add: cell_at_beyond)
    qed
  qed
  show "repr P m' t"
    using live fr by (intro repr_frame [OF assms(2)]) auto
qed

lemma put_cell_twice: "put_cell (put_cell m a c) a c' = put_cell m a c'"
  by (simp add: put_cell_def split: nat.splits)

lemma put_cell_swap:
  "a \<noteq> x \<Longrightarrow> put_cell (put_cell m a c) x c' = put_cell (put_cell m x c') a c"
  by (auto simp: put_cell_def list_update_swap split: nat.splits)

lemma put_cell_freed: "put_cell (m\<lparr>freed := fs\<rparr>) a c = (put_cell m a c)\<lparr>freed := fs\<rparr>"
  by (simp add: put_cell_def split: nat.splits)

lemma release_put_cell:
  "a \<in> set xs \<Longrightarrow> release (put_cell m a c) xs = release m xs"
proof (induction xs arbitrary: m)
  case Nil
  then show ?case by simp
next
  case (Cons x xs)
  show ?case
  proof (cases "x = a")
    case True
    then show ?thesis by (simp add: release_Cons put_cell_twice)
  next
    case False
    with Cons.prems have "a \<in> set xs" by simp
    from Cons.IH [OF this, of "(put_cell m x None)\<lparr>freed := freed m @ [x]\<rparr>"] False
    show ?thesis
      by (simp add: release_Cons put_cell_swap [of a x] put_cell_freed)
  qed
qed

lemma store_elements_cell:
  assumes "store_elements m c arr = Inr m'"
  shows "\<exists>s x. cell_at m' c = Some (s, Type_block (Some (x\<lparr>elements := arr\<rparr>)))"
proof -
  from assms obtain x where x: "load_type m c = Inr x"
    and st: "store_type m c (x\<lparr>elements := arr\<rparr>) = Inr m'"
    by (auto simp: store_elements_def split: sum.splits)
  from x obtain s where c: "cell_at m c = Some (s, Type_block (Some x))"
    by (auto simp: load_type_def split: option.splits prod.splits block.splits)
  from st c have "m' = put_cell m c (Some (s, Type_block (Some (x\<lparr>elements := arr\<rparr>))))"
    by (simp add: store_type_def)
  with cell_at_put_live [OF c] show ?thesis
    by (intro exI [of _ s] exI [of _ x]) simp
qed

lemma memcpy_keeps_source:
  assumes "malloc m b = (c, m1)" and "c \<noteq> 0"
    and "cell_at m p = Some (s, Type_block (Some ty))"
    and "memcpy_type m1 c p = Inr m2"
  shows "load_type m2 p = Inr ty"
proof -
  from malloc_cases [OF assms(1,2)] have c: "c = Suc (length (cells m))"
    and m1: "m1 = m\<lparr>cells := cells m @ [Some (Malloced, b)], budget := budget m - 1\<rparr>"
    by auto
  from assms(3) have pL: "p \<le> length (cells m)" by (auto dest: cell_at_live)
  have c1: "cell_at m1 x = (if x = c then Some (Malloced, b) else cell_at m x)" for x
    by (simp add: m1 c cell_at_grow)
  have l1: "load_type m1 p = Inr ty" using assms(3) pL c by (simp add: load_type_def c1)
  with assms(4) have st: "store_type m1 c ty = Inr m2" by (simp add: memcpy_type_def)
  then obtain v where "m2 = put_cell m1 c v"
    by (auto simp: store_type_def split: option.splits prod.splits block.splits)
  moreover have "cell_at m1 c = Some (Malloced, b)" by (simp add: c1)
  ultimately have "cell_at m2 p = cell_at m1 p"
    using cell_at_put_live [of m1 c "(Malloced, b)" v p] pL c by simp
  with l1 show ?thesis by (simp add: load_type_def)
qed

lemma clone_aggregate_steps:
  assumes cp: "cell_at m p = Some (s, Type_block (Some ty))" and agg: "is_aggregate P ty"
    and run: "ffi_type_clone P (Suc f) m p = Some (Inr (c, m'))"
  shows "\<exists>m1 m2 m3 arr. malloc m (Type_block None) = (c, m1) \<and> c \<noteq> 0 \<and>
      memcpy_type m1 c p = Inr m2 \<and>
      ffi_type_clone_array P f m2 (elements ty) = Some (Inr (arr, m3)) \<and>
      store_elements m3 c arr = Inr m'"
proof -
  from cp have p: "p \<noteq> 0" "load_type m p = Inr ty"
    by (auto simp: load_type_cell dest: cell_at_live)
  obtain c0 m1 where mal: "malloc m (Type_block None) = (c0, m1)"
    by (cases "malloc m (Type_block None)")
  have nz: "c0 \<noteq> 0"
    using run p agg mal by (auto simp: is_aggregate_def split: if_splits)
  obtain m2 where cpy: "memcpy_type m1 c0 p = Inr m2"
    using run p agg mal nz by (cases "memcpy_type m1 c0 p") (auto simp: is_aggregate_def)
  have l2: "load_type m2 p = Inr ty"
    using memcpy_keeps_source [OF mal nz cp cpy] .
  have step: "(case ffi_type_clone_array P f m2 (elements ty) of
        None \<Rightarrow> None
      | Some (Inl e) \<Rightarrow> Some (Inl e)
      | Some (Inr (arr, m3)) \<Rightarrow>
         (case store_elements m3 c0 arr of
            Inl e \<Rightarrow> Some (Inl e)
          | Inr m4 \<Rightarrow> Some (Inr (c0, m4)))) = Some (Inr (c, m'))"
    using run p agg mal nz cpy l2 by (simp add: is_aggregate_def)
  then obtain arr m3 where ca: "ffi_type_clone_array P f m2 (elements ty) = Some (Inr (arr, m3))"
    by (auto split: option.splits sum.splits)
  with step have "(case store_elements m3 c0 arr of
        Inl e \<Rightarrow> Some (Inl e) | Inr m4 \<Rightarrow> Some (Inr (c0, m4))) = Some (Inr (c, m'))"
    by simp
  then have "c0 = c" "store_elements m3 c arr = Inr m'"
    by (auto split: sum.splits)
  with mal nz cpy ca show ?thesis by auto
qed

lemma destroy_cloned_array:
  assumes res: "array_result P m ts (Inr (c, m1))"
  shows "\<exists>m2.
      (\<forall>f \<ge> 2 + length ts + sum_list (map tree_fuel ts).
          ffi_type_destroy_array P f m1 c = Some (Inr m2)) \<and>
      (\<forall>x. cell_at m2 x = cell_at m x) \<and> freed m1 = freed m \<and>
      set (freed m2) = set (freed m) \<union> {length (cells m) <.. length (cells m1)}"
proof -
  let ?L = "length (cells m)"
  from array_result_Inr [OF res] obtain ts' where
    c: "c = Suc ?L"
    and cl: "clones_of ts ts'" and rr: "\<forall>t' \<in> set ts'. repr P m1 t'"
    and dst: "cell_at m1 c = array_cell ts' []"
    and dr: "distinct (concat (map owned ts'))"
    and sr: "set (concat (map owned ts')) = {Suc ?L <.. length (cells m1)}"
    and lr: "length (cells m1) = ?L + 1 + sum_list (map alloc_count ts)"
    and fr: "\<And>x. x \<le> ?L \<Longrightarrow> cell_at m1 x = cell_at m x"
    and ot: "freed m1 = freed m"
    by auto
  let ?os = "concat (map owned ts') @ [c]"
  have d: "distinct ?os" using dr sr c by simp
  have s: "set ?os = {?L <.. length (cells m1)}" using sr c lr by auto
  have run: "ffi_type_destroy_array P f m1 c = Some (Inr (release m1 ?os))"
    if "2 + length ts + sum_list (map tree_fuel ts) \<le> f" for f
  proof -
    from that have "2 + length ts' + sum_list (map tree_fuel ts') \<le> f"
      using clone_of_measures(2) [OF cl] by simp
    from destroy_array_trees [OF dst rr d this] show ?thesis .
  qed
  have same: "cell_at (release m1 ?os) x = cell_at m x" for x
  proof (cases "x \<le> ?L")
    case True
    then have "x \<notin> set ?os" unfolding s by simp
    with True show ?thesis by (simp only: cell_at_release fr if_False)
  next
    case False
    then have "cell_at m x = None" by (simp add: cell_at_beyond)
    moreover have "cell_at (release m1 ?os) x = None"
    proof (cases "x \<le> length (cells m1)")
      case True
      with False have "x \<in> set ?os" unfolding s by simp
      then show ?thesis by (simp only: cell_at_release if_True)
    next
      case False
      then have "cell_at m1 x = None" by (simp add: cell_at_beyond)
      then show ?thesis by (simp only: cell_at_release if_splits) simp
    qed
    ultimately show ?thesis by simp
  qed
  have "set (freed (release m1 ?os)) = set (freed m) \<union> set ?os"
    by (simp only: freed_release ot set_append)
  then have "set (freed (release m1 ?os)) = set (freed m) \<union> {?L <.. length (cells m1)}"
    by (simp only: s)
  with run same ot show ?thesis by blast
qed

section \<open>The concrete store holds its tree\<close>

lemmas demo_defs = demo_store_def demo_children_def inner_tree_def libffi_def sint_type_def
  double_type_def outer_type_def inner_type_def cell_at_def array_cell_def is_aggregate_def

lemma demo_repr: "repr libffi demo_store (Agg 3 outer_type demo_children [])"
  by (simp add: demo_defs)

lemma demo_distinct: "distinct (owned (Agg 3 outer_type demo_children []))"
  by (simp add: demo_defs)

lemma demo_budget: "alloc_count (Agg 3 outer_type demo_children []) \<le> budget demo_store"
  by (simp add: demo_defs)

lemma demo_fuel: "tree_fuel (Agg 3 outer_type demo_children []) = 15"
  by (simp add: demo_children_def inner_tree_def)

lemma demo_array: "cell_at demo_store 4 = array_cell demo_children []"
  by (simp add: demo_defs)

lemma demo_kids: "\<forall>t \<in> set demo_children. repr libffi demo_store t"
  by (simp add: demo_defs)

lemma demo_kids_all: "list_all (repr libffi demo_store) demo_children"
  by (simp add: demo_defs)

lemma demo_inner_kids_all: "list_all (repr libffi demo_store) [Atom 1 Static sint_type]"
  by (simp add: demo_defs)

lemma demo_fits: "(length demo_children + 1 + length ([]::addr option list)) * 8 < (2::nat) ^ 64"
  by (simp add: demo_children_def)

lemma demo_array_budget: "1 + sum_list (map alloc_count demo_children) \<le> budget demo_store"
  by (simp add: demo_defs)

lemma demo_array_distinct: "distinct (concat (map owned demo_children) @ [4])"
  by (simp add: demo_defs)

lemma demo_inner_array: "cell_at demo_store 6 = array_cell [Atom 1 Static sint_type] [None]"
  by (simp add: demo_defs)

lemma demo_inner_kids: "\<forall>t \<in> set [Atom 1 Static sint_type]. repr libffi demo_store t"
  by (simp add: demo_defs)

section \<open>The claims of the specification\<close>

text \<open>
  Claim C1. Let the store hold an aggregate descriptor tree and let the allocator grant
  the allocations the clone needs. Then, with fuel for one walk over the tree, cloning
  the tree succeeds and destroying the clone succeeds. The blocks of the clone are
  addresses that were not mapped before, so they are disjoint from every block of the
  source; destroying the clone releases exactly these blocks. Afterwards every address
  holds what it held before the clone was made, and the store still holds the source tree.
  The same holds for the child array alone: \<^verbatim>\<open>ffi_type_destroy_array\<close> on the result of
  \<^verbatim>\<open>ffi_type_clone_array\<close> succeeds and leaves every address as it was.
\<close>

theorem destroy_of_clone_leaves_source:
  assumes "repr P m (Agg p ty ts junk)" and "alloc_count (Agg p ty ts junk) \<le> budget m"
  shows "\<exists>c m1 m2 t'.
      (\<forall>f \<ge> tree_fuel (Agg p ty ts junk).
          ffi_type_clone P f m p = Some (Inr (c, m1)) \<and>
          ffi_type_destroy P f m1 c = Some (Inr m2)) \<and>
      root t' = c \<and> repr P m1 t' \<and> distinct (owned t') \<and>
      set (owned t') \<inter> (atoms (Agg p ty ts junk) \<union> set (owned (Agg p ty ts junk))) = {} \<and>
      (\<forall>x \<in> set (owned t'). cell_at m x = None) \<and>
      (\<forall>x. x \<notin> set (owned t') \<longrightarrow> cell_at m1 x = cell_at m x) \<and>
      freed m1 = freed m \<and> freed m2 = freed m @ owned t' \<and>
      (\<forall>x. cell_at m2 x = cell_at m x) \<and>
      repr P m1 (Agg p ty ts junk) \<and> repr P m2 (Agg p ty ts junk) \<and>
      (\<exists>a' ma mb.
          (\<forall>f \<ge> tree_fuel (Agg p ty ts junk).
              ffi_type_clone_array P f m (elements ty) = Some (Inr (a', ma)) \<and>
              ffi_type_destroy_array P f ma a' = Some (Inr mb)) \<and>
          cell_at m a' = None \<and> freed ma = freed m \<and>
          (\<forall>x. cell_at mb x = cell_at m x))"
proof -
  let ?t = "Agg p ty ts junk"
  from clone_tree_ok [OF assms] obtain m1 t' where
    run: "\<And>f. tree_fuel ?t \<le> f \<Longrightarrow> ffi_type_clone P f m p = Some (Inr (root t', m1))"
    and cl: "cloned P m m1 ?t t'"
    by auto
  from cl have t': "clone_of ?t t'" "repr P m1 t'" "distinct (owned t')" "freed m1 = freed m"
    by (auto simp: cloned_def)
  note fresh = cloned_fresh [OF cl assms(1)]
  let ?m2 = "release m1 (owned t')"
  have fuel: "tree_fuel t' = tree_fuel ?t" using clone_of_measures(1) [OF t'(1)] by simp
  have des: "ffi_type_destroy P f m1 (root t') = Some (Inr ?m2)" if "tree_fuel ?t \<le> f" for f
    using destroy_tree [OF t'(2,3)] that fuel by simp
  have same: "cell_at ?m2 x = cell_at m x" for x
    using fresh(2,3) by (auto simp: cell_at_release)
  have "repr P ?m2 ?t"
    using same by (intro repr_frame [OF assms(1)]) auto
  moreover have "freed ?m2 = freed m @ owned t'"
    using t'(4) by (simp add: freed_release)
  moreover have "\<exists>a' ma mb.
      (\<forall>f \<ge> tree_fuel ?t.
          ffi_type_clone_array P f m (elements ty) = Some (Inr (a', ma)) \<and>
          ffi_type_destroy_array P f ma a' = Some (Inr mb)) \<and>
      cell_at m a' = None \<and> freed ma = freed m \<and>
      (\<forall>x. cell_at mb x = cell_at m x)"
  proof -
    from assms have "cell_at m (elements ty) = array_cell ts junk"
      "(length ts + 1 + length junk) * 8 < (2::nat) ^ 64" "\<forall>t \<in> set ts. repr P m t"
      "1 + sum_list (map alloc_count ts) \<le> budget m"
      by auto
    from clone_array_ok [OF this] obtain a' ma where
      ca: "\<And>f. 3 + length ts + sum_list (map tree_fuel ts) \<le> f \<Longrightarrow>
        ffi_type_clone_array P f m (elements ty) = Some (Inr (a', ma))"
      and res: "array_result P m ts (Inr (a', ma))"
      by auto
    from destroy_cloned_array [OF res] obtain mb where
      da: "\<And>f. 2 + length ts + sum_list (map tree_fuel ts) \<le> f \<Longrightarrow>
        ffi_type_destroy_array P f ma a' = Some (Inr mb)"
      and rest: "\<forall>x. cell_at mb x = cell_at m x" "freed ma = freed m"
      by auto
    from res have "a' = Suc (length (cells m))" by (simp add: array_result_def)
    then have "cell_at m a' = None" by (simp add: cell_at_beyond)
    moreover have "ffi_type_clone_array P f m (elements ty) = Some (Inr (a', ma)) \<and>
        ffi_type_destroy_array P f ma a' = Some (Inr mb)" if "tree_fuel ?t \<le> f" for f
      using ca [of f] da [of f] that by simp
    ultimately show ?thesis using rest by blast
  qed
  ultimately show ?thesis
    using run des t' fresh same by blast
qed

theorem destroy_of_clone_leaves_source_witness:
  "repr libffi demo_store (Agg 3 outer_type demo_children []) \<and>
   alloc_count (Agg 3 outer_type demo_children []) \<le> budget demo_store \<and>
   (\<exists>c m1 m2.
      (\<forall>f \<ge> 15. ffi_type_clone libffi f demo_store 3 = Some (Inr (c, m1)) \<and>
          ffi_type_destroy libffi f m1 c = Some (Inr m2)) \<and>
      (\<forall>x. cell_at m2 x = cell_at demo_store x) \<and>
      repr libffi m2 (Agg 3 outer_type demo_children []))"
proof -
  from destroy_of_clone_leaves_source [OF demo_repr demo_budget]
  obtain c m1 m2 where
    "\<forall>f \<ge> tree_fuel (Agg 3 outer_type demo_children []).
      ffi_type_clone libffi f demo_store 3 = Some (Inr (c, m1)) \<and>
      ffi_type_destroy libffi f m1 c = Some (Inr m2)"
    "\<forall>x. cell_at m2 x = cell_at demo_store x"
    "repr libffi m2 (Agg 3 outer_type demo_children [])"
    by blast
  then show ?thesis
    unfolding demo_fuel using demo_repr demo_budget by blast
qed

text \<open>
  Claim C2. For a descriptor array with \<open>n\<close> entries before its sentinel,
  \<^verbatim>\<open>ffi_type_clone_array\<close> returns a fresh block of exactly \<open>n + 1\<close> slots, and what its
  loop does is \<open>clone_each\<close>: cloning the entries of the source, sentinel included, index
  by index into that block. The result holds, at each index below \<open>n\<close>, the root of a
  clone of the source's entry at that index, and the sentinel at index \<open>n\<close>.
\<close>

theorem clone_array_elementwise:
  assumes "cell_at m a = array_cell ts junk"
    and "(length ts + 1 + length junk) * 8 < (2::nat) ^ 64"
    and "\<forall>t \<in> set ts. repr P m t"
    and "1 + sum_list (map alloc_count ts) \<le> budget m"
  shows "\<exists>c m1 m' ts'.
      (\<forall>f \<ge> 3 + length ts + sum_list (map tree_fuel ts).
          ffi_type_clone_array P f m a = Some (Inr (c, m')) \<and>
          clone_each P f m1 c 0 (map root ts @ [0]) = Some (Inr m')) \<and>
      malloc m (Array_block (replicate (length ts + 1) None)) = (c, m1) \<and>
      c \<noteq> 0 \<and> cell_at m c = None \<and>
      cell_at m' c = Some (Malloced, Array_block (map (Some \<circ> root) ts' @ [Some 0])) \<and>
      length ts' = length ts \<and>
      (\<forall>i < length ts. clone_of (ts ! i) (ts' ! i) \<and> repr P m' (ts' ! i))"
proof -
  from clone_array_ok [OF assms] obtain c m' where
    run: "\<And>f. 3 + length ts + sum_list (map tree_fuel ts) \<le> f \<Longrightarrow>
      ffi_type_clone_array P f m a = Some (Inr (c, m'))"
    and res: "array_result P m ts (Inr (c, m'))"
    by auto
  from res obtain m1 ts' where c: "c = Suc (length (cells m))"
    and mal: "malloc m (Array_block (replicate (Suc (length ts)) None)) = (c, m1)"
    and cl: "cloned_list P m1 m' c [] ts ts'"
    and each: "\<And>f. 2 + length ts + sum_list (map tree_fuel ts) \<le> f \<Longrightarrow>
      clone_each P f m1 c 0 (map root ts @ [0]) = Some (Inr m')"
    by (auto simp: array_result_def)
  from cl have cs: "clones_of ts ts'" and rr: "\<forall>t' \<in> set ts'. repr P m' t'"
    and dst: "cell_at m' c = Some (Malloced, Array_block (map (Some \<circ> root) ts' @ [Some 0]))"
    by (auto simp: cloned_list_def)
  have len: "length ts' = length ts" using clones_of_length [OF cs] .
  have "clone_of (ts ! i) (ts' ! i) \<and> repr P m' (ts' ! i)" if "i < length ts" for i
    using clones_of_nth [OF cs that] rr that len by simp
  moreover have "cell_at m c = None" using c by (simp add: cell_at_beyond)
  ultimately show ?thesis
    using run each mal c dst len
    by (intro exI [of _ c] exI [of _ m1] exI [of _ m'] exI [of _ ts']) simp
qed

theorem clone_array_elementwise_witness:
  "cell_at demo_store 4 = array_cell demo_children [] \<and>
   (length demo_children + 1 + length ([]::addr option list)) * 8 < (2::nat) ^ 64 \<and>
   list_all (repr libffi demo_store) demo_children \<and>
   1 + sum_list (map alloc_count demo_children) \<le> budget demo_store \<and>
   (\<exists>m' ts'.
      (\<forall>f \<ge> 14. ffi_type_clone_array libffi f demo_store 4 = Some (Inr (7, m'))) \<and>
      cell_at m' 7 = Some (Malloced, Array_block (map (Some \<circ> root) ts' @ [Some 0])) \<and>
      length ts' = 3 \<and> ts' ! 0 = Atom 1 Static sint_type \<and> ts' ! 2 = Atom 2 Static double_type)"
proof -
  from clone_array_elementwise [OF demo_array demo_fits demo_kids demo_array_budget]
  obtain c m1 m' ts' where
    run: "\<forall>f \<ge> 3 + length demo_children + sum_list (map tree_fuel demo_children).
      ffi_type_clone_array libffi f demo_store 4 = Some (Inr (c, m')) \<and>
      clone_each libffi f m1 c 0 (map root demo_children @ [0]) = Some (Inr m')"
    and mal: "malloc demo_store (Array_block (replicate (length demo_children + 1) None)) = (c, m1)"
    and dst: "cell_at m' c = Some (Malloced, Array_block (map (Some \<circ> root) ts' @ [Some 0]))"
    and len: "length ts' = length demo_children"
    and kids: "\<forall>i < length demo_children. clone_of (demo_children ! i) (ts' ! i) \<and>
      repr libffi m' (ts' ! i)"
    by blast
  have c: "c = 7" using mal by (simp add: malloc_def demo_store_def)
  have n: "3 + length demo_children + sum_list (map tree_fuel demo_children) = 14"
    "length demo_children = 3"
    by (simp_all add: demo_children_def inner_tree_def)
  have "clone_of (demo_children ! 0) (ts' ! 0)" "clone_of (demo_children ! 2) (ts' ! 2)"
    using kids n(2) by simp_all
  then have "ts' ! 0 = Atom 1 Static sint_type" "ts' ! 2 = Atom 2 Static double_type"
    by (simp_all add: demo_children_def)
  moreover have "\<forall>f \<ge> 14. ffi_type_clone_array libffi f demo_store 4 = Some (Inr (7, m'))"
    using run n c by simp
  moreover have "cell_at m' 7 = Some (Malloced, Array_block (map (Some \<circ> root) ts' @ [Some 0]))"
    using dst c by simp
  moreover have "length ts' = 3" using len n by simp
  ultimately show ?thesis
    using demo_array demo_fits demo_kids_all demo_array_budget by blast
qed

text \<open>
  Claim C3. On a descriptor whose tag is neither \<^verbatim>\<open>FFI_TYPE_STRUCT\<close> nor
  \<^verbatim>\<open>FFI_TYPE_COMPLEX\<close>, \<^verbatim>\<open>ffi_type_clone\<close> returns the same address and the same store,
  and \<^verbatim>\<open>ffi_type_destroy\<close> returns the same store.
\<close>

theorem atomic_clone_destroy_identity:
  assumes "cell_at m a = Some (s, Type_block (Some ty))"
    and "type ty \<noteq> FFI_TYPE_STRUCT P" and "type ty \<noteq> FFI_TYPE_COMPLEX P"
  shows "ffi_type_clone P (Suc f) m a = Some (Inr (a, m)) \<and>
    ffi_type_destroy P (Suc f) m a = Some (Inr m)"
proof -
  from assms(1) have "a \<noteq> 0" "load_type m a = Inr ty"
    by (auto simp: load_type_cell dest: cell_at_live)
  with assms(2,3) show ?thesis by simp
qed

theorem atomic_clone_destroy_identity_witness:
  "cell_at demo_store 1 = Some (Static, Type_block (Some sint_type)) \<and>
   type sint_type \<noteq> FFI_TYPE_STRUCT libffi \<and> type sint_type \<noteq> FFI_TYPE_COMPLEX libffi \<and>
   ffi_type_clone libffi 1 demo_store 1 = Some (Inr (1, demo_store)) \<and>
   ffi_type_destroy libffi 1 demo_store 1 = Some (Inr demo_store)"
proof -
  have h1: "cell_at demo_store 1 = Some (Static, Type_block (Some sint_type))"
    by (simp add: demo_store_def cell_at_def)
  have h2: "type sint_type \<noteq> FFI_TYPE_STRUCT libffi"
    and h3: "type sint_type \<noteq> FFI_TYPE_COMPLEX libffi"
    by (simp_all add: sint_type_def libffi_def)
  from atomic_clone_destroy_identity [OF h1 h2 h3, of 0] h1 h2 h3 show ?thesis by simp
qed

text \<open>
  Claim C4. The clone of an aggregate descriptor is a block that was not mapped before
  (so it differs from the source), with the size, alignment and tag of the source, hence
  an aggregate again. Its \<open>elements\<close> field is the address that \<^verbatim>\<open>ffi_type_clone_array\<close>
  returns for the source's \<open>elements\<close>, called in the store that holds the fresh copy.
  The result holds a tree that is a clone of the source tree.
\<close>

theorem clone_of_aggregate:
  assumes "repr P m (Agg p ty ts junk)" and "alloc_count (Agg p ty ts junk) \<le> budget m"
  shows "\<exists>c m' ty' ts' m1 m2.
      (\<forall>f \<ge> tree_fuel (Agg p ty ts junk). ffi_type_clone P f m p = Some (Inr (c, m'))) \<and>
      c \<noteq> 0 \<and> c \<noteq> p \<and> cell_at m c = None \<and>
      cell_at m' c = Some (Malloced, Type_block (Some ty')) \<and>
      size_fld ty' = size_fld ty \<and> alignment ty' = alignment ty \<and> type ty' = type ty \<and>
      is_aggregate P ty' \<and>
      malloc m (Type_block None) = (c, m1) \<and> memcpy_type m1 c p = Inr m2 \<and>
      (\<forall>f \<ge> 3 + length ts + sum_list (map tree_fuel ts).
          \<exists>m3. ffi_type_clone_array P f m2 (elements ty) = Some (Inr (elements ty', m3)) \<and>
            store_elements m3 c (elements ty') = Inr m') \<and>
      clone_of (Agg p ty ts junk) (Agg c ty' ts' []) \<and> repr P m' (Agg c ty' ts' [])"
proof -
  let ?t = "Agg p ty ts junk"
  let ?N = "3 + length ts + sum_list (map tree_fuel ts)"
  from assms(1) have cp: "cell_at m p = Some (Malloced, Type_block (Some ty))"
    and agg: "is_aggregate P ty"
    by auto
  from clone_tree_ok [OF assms] obtain m' t' where
    run: "\<And>f. tree_fuel ?t \<le> f \<Longrightarrow> ffi_type_clone P f m p = Some (Inr (root t', m'))"
    and cl: "cloned P m m' ?t t'"
    by auto
  from cl have co: "clone_of ?t t'" and rt': "repr P m' t'" by (auto simp: cloned_def)
  from co obtain c ty' ts' where t': "t' = Agg c ty' ts' []"
    and sc: "size_fld ty' = size_fld ty" "alignment ty' = alignment ty" "type ty' = type ty"
    by (rule clone_of_Agg)
  from rt' have cc: "cell_at m' c = Some (Malloced, Type_block (Some ty'))"
    and agg': "is_aggregate P ty'"
    by (auto simp: t')
  have fresh: "cell_at m c = None"
    using cloned_fresh(2) [OF cl assms(1)] by (simp add: t')
  have ne: "c \<noteq> 0" "c \<noteq> p"
    using cc cp fresh by (auto dest: cell_at_live)
  have "tree_fuel ?t \<le> Suc ?N" by simp
  from clone_aggregate_steps [OF cp agg run [OF this, unfolded t' root.simps]]
  obtain m1 m2 where mal: "malloc m (Type_block None) = (c, m1)"
    and cpy: "memcpy_type m1 c p = Inr m2"
    by auto
  have arr: "\<exists>m3. ffi_type_clone_array P f m2 (elements ty) = Some (Inr (elements ty', m3)) \<and>
      store_elements m3 c (elements ty') = Inr m'" if "?N \<le> f" for f
  proof -
    from that have "tree_fuel ?t \<le> Suc f" by simp
    from clone_aggregate_steps [OF cp agg run [OF this, unfolded t' root.simps]] mal cpy
    obtain m3 arr where ca: "ffi_type_clone_array P f m2 (elements ty) = Some (Inr (arr, m3))"
      and se: "store_elements m3 c arr = Inr m'"
      by auto
    from store_elements_cell [OF se] cc have "elements ty' = arr" by auto
    with ca se show ?thesis by auto
  qed
  show ?thesis
    using run [unfolded t' root.simps] ne fresh cc sc agg' mal cpy arr co rt'
    unfolding t' by blast
qed

theorem clone_of_aggregate_witness:
  "repr libffi demo_store (Agg 3 outer_type demo_children []) \<and>
   alloc_count (Agg 3 outer_type demo_children []) \<le> budget demo_store \<and>
   (\<exists>m' ty'.
      (\<forall>f \<ge> 15. ffi_type_clone libffi f demo_store 3 = Some (Inr (7, m'))) \<and>
      cell_at demo_store 7 = None \<and>
      cell_at m' 7 = Some (Malloced, Type_block (Some ty')) \<and>
      size_fld ty' = 0 \<and> alignment ty' = 0 \<and> type ty' = 13 \<and> is_aggregate libffi ty')"
proof -
  from clone_of_aggregate [OF demo_repr demo_budget]
  obtain c m' ty' m1 where
    run: "\<forall>f \<ge> tree_fuel (Agg 3 outer_type demo_children []).
      ffi_type_clone libffi f demo_store 3 = Some (Inr (c, m'))"
    and fresh: "cell_at demo_store c = None"
    and cc: "cell_at m' c = Some (Malloced, Type_block (Some ty'))"
    and sc: "size_fld ty' = size_fld outer_type" "alignment ty' = alignment outer_type"
      "type ty' = type outer_type" "is_aggregate libffi ty'"
    and mal: "malloc demo_store (Type_block None) = (c, m1)"
    by blast
  have c: "c = 7" using mal by (simp add: malloc_def demo_store_def)
  have "\<forall>f \<ge> 15. ffi_type_clone libffi f demo_store 3 = Some (Inr (7, m'))"
    using run c demo_fuel by simp
  moreover have "cell_at demo_store 7 = None"
    "cell_at m' 7 = Some (Malloced, Type_block (Some ty'))"
    using fresh cc c by simp_all
  moreover have "size_fld ty' = 0" "alignment ty' = 0" "type ty' = 13"
    using sc by (simp_all add: outer_type_def)
  ultimately show ?thesis
    using sc(4) demo_repr demo_budget by blast
qed

text \<open>
  Claim C5. On an aggregate tree whose owned blocks are pairwise different,
  \<^verbatim>\<open>ffi_type_destroy\<close> succeeds and the release record grows by the blocks of the
  children, then the child array, then the descriptor itself. Every owned block was live,
  is released afterwards and enters the release record exactly once; no other address
  changes or is released.
\<close>

theorem destroy_releases_owned_blocks_once:
  assumes "repr P m (Agg p ty ts junk)" and "distinct (owned (Agg p ty ts junk))"
  shows "\<exists>m'.
      (\<forall>f \<ge> tree_fuel (Agg p ty ts junk). ffi_type_destroy P f m p = Some (Inr m')) \<and>
      freed m' = freed m @ concat (map owned ts) @ [elements ty, p] \<and>
      (\<forall>x \<in> set (owned (Agg p ty ts junk)).
          cell_at m x \<noteq> None \<and> cell_at m' x = None \<and>
          count_list (freed m') x = count_list (freed m) x + 1) \<and>
      (\<forall>x. x \<notin> set (owned (Agg p ty ts junk)) \<longrightarrow>
          cell_at m' x = cell_at m x \<and> count_list (freed m') x = count_list (freed m) x)"
proof -
  let ?t = "Agg p ty ts junk"
  let ?m' = "release m (owned ?t)"
  have run: "\<forall>f \<ge> tree_fuel ?t. ffi_type_destroy P f m p = Some (Inr ?m')"
    using destroy_tree [OF assms] by simp
  have fr: "freed ?m' = freed m @ concat (map owned ts) @ [elements ty, p]"
    by (simp add: freed_release)
  have own: "cell_at m x \<noteq> None \<and> cell_at ?m' x = None \<and>
      count_list (freed ?m') x = count_list (freed m) x + 1" if "x \<in> set (owned ?t)" for x
  proof -
    from repr_owned_kind [OF assms(1) that] have "cell_at m x \<noteq> None" by auto
    moreover have "cell_at ?m' x = None" using that by (simp add: cell_at_release)
    moreover have "count_list (freed ?m') x = count_list (freed m) x + 1"
      unfolding freed_release using assms(2) that by (rule count_list_append_once)
    ultimately show ?thesis by simp
  qed
  have rest: "cell_at ?m' x = cell_at m x \<and> count_list (freed ?m') x = count_list (freed m) x"
    if "x \<notin> set (owned ?t)" for x
    using that by (simp add: cell_at_release freed_release count_list_0_iff)
  from run fr own rest show ?thesis by blast
qed

theorem destroy_releases_owned_blocks_once_witness:
  "repr libffi demo_store (Agg 3 outer_type demo_children []) \<and>
   distinct (owned (Agg 3 outer_type demo_children [])) \<and>
   (\<exists>m'. (\<forall>f \<ge> 15. ffi_type_destroy libffi f demo_store 3 = Some (Inr m')) \<and>
      freed m' = [6, 5, 4, 3] \<and>
      cell_at m' 3 = None \<and> cell_at m' 4 = None \<and> cell_at m' 5 = None \<and> cell_at m' 6 = None \<and>
      cell_at m' 1 = cell_at demo_store 1 \<and> cell_at m' 2 = cell_at demo_store 2)"
proof -
  from destroy_releases_owned_blocks_once [OF demo_repr demo_distinct]
  obtain m' where
    run: "\<forall>f \<ge> tree_fuel (Agg 3 outer_type demo_children []).
      ffi_type_destroy libffi f demo_store 3 = Some (Inr m')"
    and fr: "freed m' = freed demo_store @ concat (map owned demo_children) @ [elements outer_type, 3]"
    and own: "\<forall>x \<in> set (owned (Agg 3 outer_type demo_children [])).
      cell_at demo_store x \<noteq> None \<and> cell_at m' x = None \<and>
      count_list (freed m') x = count_list (freed demo_store) x + 1"
    and rest: "\<forall>x. x \<notin> set (owned (Agg 3 outer_type demo_children [])) \<longrightarrow>
      cell_at m' x = cell_at demo_store x \<and>
      count_list (freed m') x = count_list (freed demo_store) x"
    by blast
  have o: "owned (Agg 3 outer_type demo_children []) = [6, 5, 4, 3]"
    by (simp add: demo_children_def inner_tree_def outer_type_def inner_type_def)
  have "tree_fuel (Agg 3 outer_type demo_children []) = 15"
    by (simp add: demo_children_def inner_tree_def)
  with run have "\<forall>f \<ge> 15. ffi_type_destroy libffi f demo_store 3 = Some (Inr m')" by simp
  moreover have "freed m' = [6, 5, 4, 3]"
    using fr by (simp add: demo_store_def demo_children_def inner_tree_def outer_type_def inner_type_def)
  moreover have "cell_at m' 3 = None" "cell_at m' 4 = None" "cell_at m' 5 = None" "cell_at m' 6 = None"
    using own unfolding o by simp_all
  moreover have "cell_at m' 1 = cell_at demo_store 1" "cell_at m' 2 = cell_at demo_store 2"
    using rest unfolding o by simp_all
  ultimately show ?thesis using demo_repr demo_distinct by blast
qed

text \<open>
  Claim C6. On an array whose entries before the sentinel are roots of trees with
  exclusively owned blocks, \<^verbatim>\<open>ffi_type_destroy_array\<close> does what \<open>destroy_each\<close> does on
  these entries, in index order, and then releases the array. Whatever the slots behind
  the sentinel hold (nothing, other values, indeterminate values), the outcome is the
  same store. With no entry before the sentinel, only the array is released.
\<close>

theorem destroy_array_stops_at_sentinel:
  assumes "cell_at m a = array_cell ts junk"
    and "\<forall>t \<in> set ts. repr P m t"
    and "distinct (concat (map owned ts) @ [a])"
  shows "\<exists>m1 m'.
      (\<forall>f \<ge> 2 + length ts + sum_list (map tree_fuel ts).
          ffi_type_destroy_array P f m a = Some (Inr m') \<and>
          destroy_each P f m (map root ts) = Some (Inr m1) \<and>
          (\<forall>junk'. ffi_type_destroy_array P f (put_cell m a (array_cell ts junk')) a =
             Some (Inr m'))) \<and>
      free m1 a = Inr m' \<and>
      freed m1 = freed m @ concat (map owned ts) \<and>
      freed m' = freed m @ concat (map owned ts) @ [a] \<and>
      (ts = [] \<longrightarrow> m1 = m)"
proof -
  let ?os = "concat (map owned ts)"
  let ?N = "2 + length ts + sum_list (map tree_fuel ts)"
  let ?m1 = "release m ?os"
  let ?m' = "release m (?os @ [a])"
  have live: "cell_at m a = Some (Malloced, Array_block (map (Some \<circ> root) ts @ Some 0 # junk))"
    using assms(1) by (simp add: array_cell_def)
  have arr: "ffi_type_destroy_array P f m a = Some (Inr ?m')" if "?N \<le> f" for f
    using destroy_array_trees [OF assms that] .
  have each: "destroy_each P f m (map root ts) = Some (Inr ?m1)" if "?N \<le> f" for f
  proof (rule destroy_each_trees)
    show "\<forall>t \<in> set ts. repr P m t" by fact
    show "distinct ?os" using assms(3) by simp
    show "\<forall>t \<in> set ts. tree_fuel t \<le> f"
    proof
      fix t assume "t \<in> set ts"
      then have "tree_fuel t \<le> sum_list (map tree_fuel ts)"
        by (simp add: member_le_sum_list)
      with that show "tree_fuel t \<le> f" by simp
    qed
  qed
  have other: "ffi_type_destroy_array P f (put_cell m a (array_cell ts junk')) a = Some (Inr ?m')"
    if "?N \<le> f" for f junk'
  proof -
    let ?m2 = "put_cell m a (array_cell ts junk')"
    have c2: "cell_at ?m2 x = (if x = a then array_cell ts junk' else cell_at m x)" for x
      using cell_at_put_live [OF live] by simp
    have r2: "\<forall>t \<in> set ts. repr P ?m2 t"
    proof
      fix t assume t: "t \<in> set ts"
      then have rt: "repr P m t" using assms(2) by simp
      show "repr P ?m2 t"
      proof (rule repr_frame [OF rt], rule ballI)
        fix x assume x: "x \<in> atoms t \<union> set (owned t)"
        have "x \<noteq> a"
        proof
          assume xa: "x = a"
          have "a \<notin> set (owned t)" using assms(3) t by auto
          with x xa have "a \<in> atoms t" by simp
          from repr_atoms_kind [OF rt this] live show False by simp
        qed
        then show "cell_at ?m2 x = cell_at m x" by (simp add: c2)
      qed
    qed
    have "ffi_type_destroy_array P f ?m2 a = Some (Inr (release ?m2 (?os @ [a])))"
    proof (rule destroy_array_trees)
      show "cell_at ?m2 a = array_cell ts junk'" by (simp add: c2)
      show "\<forall>t \<in> set ts. repr P ?m2 t" by (rule r2)
      show "distinct (?os @ [a])" by fact
      show "?N \<le> f" by fact
    qed
    then show ?thesis by (simp add: release_put_cell)
  qed
  have fr: "free ?m1 a = Inr ?m'"
  proof -
    have "cell_at ?m1 a = Some (Malloced, Array_block (map (Some \<circ> root) ts @ Some 0 # junk))"
      using live assms(3) by (simp add: cell_at_release)
    from free_release [OF this] show ?thesis by (simp add: release_append)
  qed
  have "freed ?m1 = freed m @ ?os" "freed ?m' = freed m @ ?os @ [a]" "ts = [] \<longrightarrow> ?m1 = m"
    by (simp_all add: freed_release)
  with arr each other fr show ?thesis by blast
qed

theorem destroy_array_stops_at_sentinel_witness:
  "cell_at demo_store 6 = array_cell [Atom 1 Static sint_type] [None] \<and>
   list_all (repr libffi demo_store) [Atom 1 Static sint_type] \<and>
   distinct (concat (map owned [Atom 1 Static sint_type]) @ [6]) \<and>
   (\<exists>m'. (\<forall>f \<ge> 4. ffi_type_destroy_array libffi f demo_store 6 = Some (Inr m')) \<and>
      freed m' = [6]) \<and>
   cell_at demo_store 4 = array_cell demo_children [] \<and>
   list_all (repr libffi demo_store) demo_children \<and>
   distinct (concat (map owned demo_children) @ [4]) \<and>
   (\<exists>m'. (\<forall>f \<ge> 13. ffi_type_destroy_array libffi f demo_store 4 = Some (Inr m')) \<and>
      freed m' = [6, 5, 4])"
proof -
  have d: "distinct (concat (map owned [Atom 1 Static sint_type]) @ [6])" by simp
  from destroy_array_stops_at_sentinel [OF demo_inner_array demo_inner_kids d]
  obtain m' where
    "\<forall>f \<ge> 2 + length [Atom 1 Static sint_type] + sum_list (map tree_fuel [Atom 1 Static sint_type]).
      ffi_type_destroy_array libffi f demo_store 6 = Some (Inr m')"
    "freed m' = freed demo_store @ concat (map owned [Atom 1 Static sint_type]) @ [6]"
    by blast
  then have one: "\<exists>m'. (\<forall>f \<ge> 4. ffi_type_destroy_array libffi f demo_store 6 = Some (Inr m')) \<and>
      freed m' = [6]"
    by (intro exI [of _ m']) (simp add: demo_store_def)
  from destroy_array_stops_at_sentinel [OF demo_array demo_kids demo_array_distinct]
  obtain m'' where
    "\<forall>f \<ge> 2 + length demo_children + sum_list (map tree_fuel demo_children).
      ffi_type_destroy_array libffi f demo_store 4 = Some (Inr m'')"
    "freed m'' = freed demo_store @ concat (map owned demo_children) @ [4]"
    by blast
  then have two: "\<exists>m'. (\<forall>f \<ge> 13. ffi_type_destroy_array libffi f demo_store 4 = Some (Inr m')) \<and>
      freed m' = [6, 5, 4]"
    by (intro exI [of _ m''])
      (simp add: demo_store_def demo_children_def inner_tree_def inner_type_def)
  from one two d demo_inner_array demo_inner_kids_all demo_array demo_kids_all
    demo_array_distinct
  show ?thesis by blast
qed

text \<open>
  Claim C7. On the null reference, \<^verbatim>\<open>ffi_type_destroy\<close> returns the store unchanged and
  \<^verbatim>\<open>ffi_type_clone\<close> returns the null reference and the store unchanged.
\<close>

theorem null_is_noop:
  "ffi_type_destroy P (Suc f) m 0 = Some (Inr m) \<and>
   ffi_type_clone P (Suc f) m 0 = Some (Inr (0, m))"
  by simp

theorem null_is_noop_witness:
  "ffi_type_destroy libffi 1 demo_store 0 = Some (Inr demo_store) \<and>
   ffi_type_clone libffi 1 demo_store 0 = Some (Inr (0, demo_store))"
  using null_is_noop [of libffi 0 demo_store] by simp

text \<open>
  Claim C8. The entry point that \<^verbatim>\<open>main\<close> binds to \<^verbatim>\<open>callback\<close> with the context 5
  returns 11 when called with 6 and 12 when called with 7.
\<close>

theorem closure_adds_context: "main_fn 6 = Inr 11 \<and> main_fn 7 = Inr 12"
  by (simp add: main_fn_def closure_call_def main_store_def callback_def load_int_def
      load_ptr_def store_int_def cload_def Let_def)

theorem closure_adds_context_witness:
  "closure_call callback 1 2 [Opaque, Int_val 5] [6] = Inr 11 \<and>
   closure_call callback 1 2 [Opaque, Int_val 5] [7] = Inr 12"
  using closure_adds_context by (simp add: main_fn_def main_store_def)

text \<open>
  Claim C9. On a store that holds a tree (finite, hence acyclic below the root, with
  sentinel-terminated child arrays; subtrees may be shared, and the allocator may refuse),
  \<^verbatim>\<open>ffi_type_clone\<close> and \<^verbatim>\<open>ffi_type_destroy\<close> return with any fuel from \<open>tree_fuel\<close> of the
  tree on, and so do \<^verbatim>\<open>ffi_type_clone_array\<close> and \<^verbatim>\<open>ffi_type_destroy_array\<close> on the child
  array of an aggregate. \<open>tree_fuel\<close> is defined by recursion on the tree.
\<close>

theorem clone_and_destroy_terminate:
  assumes "repr P m t"
  shows "(\<exists>r1 r2. \<forall>f \<ge> tree_fuel t.
        ffi_type_clone P f m (root t) = Some r1 \<and> ffi_type_destroy P f m (root t) = Some r2) \<and>
    (\<forall>p ty ts junk. t = Agg p ty ts junk \<longrightarrow>
      (\<exists>r3 r4. \<forall>f \<ge> tree_fuel t.
        ffi_type_clone_array P f m (elements ty) = Some r3 \<and>
        ffi_type_destroy_array P f m (elements ty) = Some r4))"
proof (intro conjI allI impI)
  from clone_tree [OF assms] obtain r1 where
    "\<forall>f \<ge> tree_fuel t. ffi_type_clone P f m (root t) = Some r1" by auto
  moreover from destroy_total [OF assms decayed_refl] obtain r2 where
    "\<forall>f \<ge> tree_fuel t. ffi_type_destroy P f m (root t) = Some r2" by auto
  ultimately show "\<exists>r1 r2. \<forall>f \<ge> tree_fuel t.
      ffi_type_clone P f m (root t) = Some r1 \<and> ffi_type_destroy P f m (root t) = Some r2"
    by blast
next
  fix p ty ts junk assume t: "t = Agg p ty ts junk"
  with assms have ca: "cell_at m (elements ty) = array_cell ts junk"
    and fits: "(length ts + 1 + length junk) * 8 < (2::nat) ^ 64"
    and rs: "\<forall>t \<in> set ts. repr P m t"
    by auto
  have "\<exists>r. (\<forall>f \<ge> 3 + length ts + sum_list (map tree_fuel ts).
        ffi_type_clone_array P f m (elements ty) = Some r) \<and> array_result P m ts r"
    using ca fits rs by (intro clone_array_trees) (auto intro: clone_tree)
  then obtain r3 where
    "\<forall>f \<ge> 3 + length ts + sum_list (map tree_fuel ts).
      ffi_type_clone_array P f m (elements ty) = Some r3" by auto
  moreover from destroy_array_total [OF ca rs] obtain r4 where
    "\<forall>f \<ge> 2 + length ts + sum_list (map tree_fuel ts).
      ffi_type_destroy_array P f m (elements ty) = Some r4" by auto
  ultimately show "\<exists>r3 r4. \<forall>f \<ge> tree_fuel t.
      ffi_type_clone_array P f m (elements ty) = Some r3 \<and>
      ffi_type_destroy_array P f m (elements ty) = Some r4"
    unfolding t by (intro exI [of _ r3] exI [of _ r4]) simp
qed

theorem clone_and_destroy_terminate_witness:
  "repr libffi demo_store (Agg 3 outer_type demo_children []) \<and>
   (\<exists>r1 r2. \<forall>f \<ge> 15.
      ffi_type_clone libffi f demo_store 3 = Some r1 \<and>
      ffi_type_destroy libffi f demo_store 3 = Some r2) \<and>
   (\<exists>r3 r4. \<forall>f \<ge> 15.
      ffi_type_clone_array libffi f demo_store 4 = Some r3 \<and>
      ffi_type_destroy_array libffi f demo_store 4 = Some r4)"
proof -
  note t = clone_and_destroy_terminate [OF demo_repr, unfolded demo_fuel root.simps]
  from t have "\<exists>r1 r2. \<forall>f \<ge> 15.
      ffi_type_clone libffi f demo_store 3 = Some r1 \<and>
      ffi_type_destroy libffi f demo_store 3 = Some r2"
    by (rule conjunct1)
  moreover from t have "\<exists>r3 r4. \<forall>f \<ge> 15.
      ffi_type_clone_array libffi f demo_store (elements outer_type) = Some r3 \<and>
      ffi_type_destroy_array libffi f demo_store (elements outer_type) = Some r4"
    by blast
  then have "\<exists>r3 r4. \<forall>f \<ge> 15.
      ffi_type_clone_array libffi f demo_store 4 = Some r3 \<and>
      ffi_type_destroy_array libffi f demo_store 4 = Some r4"
    by (simp add: outer_type_def)
  ultimately show ?thesis using demo_repr by blast
qed

text \<open>
  Claim C10. In the clone of an aggregate, the slot of every atomic child holds the
  address the source array holds, and the atom is untouched; the slot of every aggregate
  child holds an address that was not mapped before. The clone has the same atoms as the
  source, and all blocks it owns are new.
\<close>

theorem clone_shares_atomic_children:
  assumes "repr P m (Agg p ty ts junk)" and "alloc_count (Agg p ty ts junk) \<le> budget m"
  shows "\<exists>c m' ty' ts' sl.
      (\<forall>f \<ge> tree_fuel (Agg p ty ts junk). ffi_type_clone P f m p = Some (Inr (c, m'))) \<and>
      repr P m' (Agg c ty' ts' []) \<and>
      cell_at m' c = Some (Malloced, Type_block (Some ty')) \<and>
      cell_at m' (elements ty') = Some (Malloced, Array_block sl) \<and>
      length sl = length ts + 1 \<and> sl ! length ts = Some 0 \<and>
      (\<forall>i < length ts.
          (\<forall>q s aty. ts ! i = Atom q s aty \<longrightarrow>
              sl ! i = Some q \<and> ts' ! i = Atom q s aty \<and> cell_at m' q = cell_at m q) \<and>
          (\<forall>q qty us j. ts ! i = Agg q qty us j \<longrightarrow>
              (\<exists>q'. sl ! i = Some q' \<and> q' \<noteq> q \<and> cell_at m q' = None))) \<and>
      atoms (Agg c ty' ts' []) = atoms (Agg p ty ts junk) \<and>
      (\<forall>x \<in> set (owned (Agg c ty' ts' [])). cell_at m x = None)"
proof -
  let ?t = "Agg p ty ts junk"
  from clone_tree_ok [OF assms] obtain m' t' where
    run: "\<And>f. tree_fuel ?t \<le> f \<Longrightarrow> ffi_type_clone P f m p = Some (Inr (root t', m'))"
    and cl: "cloned P m m' ?t t'"
    by auto
  from cl have co: "clone_of ?t t'" and rt': "repr P m' t'" by (auto simp: cloned_def)
  from co obtain c ty' ts' where t': "t' = Agg c ty' ts' []" and cs: "clones_of ts ts'"
    by (rule clone_of_Agg)
  let ?sl = "map (Some \<circ> root) ts' @ [Some 0]"
  have len: "length ts' = length ts" using clones_of_length [OF cs] .
  from rt' have cc: "cell_at m' c = Some (Malloced, Type_block (Some ty'))"
    and ca: "cell_at m' (elements ty') = Some (Malloced, Array_block ?sl)"
    by (auto simp: t' array_cell_def)
  note fresh = cloned_fresh [OF cl assms(1)]
  have kid: "(\<forall>q s aty. ts ! i = Atom q s aty \<longrightarrow>
        ?sl ! i = Some q \<and> ts' ! i = Atom q s aty \<and> cell_at m' q = cell_at m q) \<and>
      (\<forall>q qty us j. ts ! i = Agg q qty us j \<longrightarrow>
        (\<exists>q'. ?sl ! i = Some q' \<and> q' \<noteq> q \<and> cell_at m q' = None))"
    if i: "i < length ts" for i
  proof (intro conjI allI impI)
    fix q s aty assume a: "ts ! i = Atom q s aty"
    with clones_of_nth [OF cs i] have b: "ts' ! i = Atom q s aty" by simp
    have "ts ! i \<in> set ts" using i by simp
    with assms(1) have "repr P m (ts ! i)" by simp
    with a have live: "cell_at m q \<noteq> None" by auto
    have "q \<notin> set (owned t')" using fresh(2) live by auto
    with fresh(3) have "cell_at m' q = cell_at m q" by simp
    with b i len show "?sl ! i = Some q" "ts' ! i = Atom q s aty" "cell_at m' q = cell_at m q"
      by (simp_all add: nth_append)
  next
    fix q qty us j assume a: "ts ! i = Agg q qty us j"
    with clones_of_nth [OF cs i] obtain q' qty' us' where b: "ts' ! i = Agg q' qty' us' []"
      by (auto elim: clone_of_Agg)
    have "ts' ! i \<in> set ts'" using i len by simp
    then have "set (owned (ts' ! i)) \<subseteq> set (owned t')" by (auto simp: t')
    with b have "q' \<in> set (owned t')" by auto
    with fresh(2) have f: "cell_at m q' = None" by simp
    have "ts ! i \<in> set ts" using i by simp
    with assms(1) have "repr P m (ts ! i)" by simp
    with a have "cell_at m q \<noteq> None" by auto
    with f have "q' \<noteq> q" by auto
    moreover have "?sl ! i = Some q'" using b i len by (simp add: nth_append)
    ultimately show "\<exists>q'. ?sl ! i = Some q' \<and> q' \<noteq> q \<and> cell_at m q' = None"
      using f by blast
  qed
  have "length ?sl = length ts + 1" "?sl ! length ts = Some 0"
    using len by (simp_all add: nth_append)
  moreover have "atoms (Agg c ty' ts' []) = atoms ?t"
    using clone_of_atoms(1) [OF co] by (simp add: t')
  ultimately show ?thesis
    using run [unfolded t' root.simps] rt' cc ca kid fresh(2)
    unfolding t' by blast
qed

theorem clone_shares_atomic_children_witness:
  "repr libffi demo_store (Agg 3 outer_type demo_children []) \<and>
   alloc_count (Agg 3 outer_type demo_children []) \<le> budget demo_store \<and>
   (\<exists>c m' ty' sl.
      (\<forall>f \<ge> 15. ffi_type_clone libffi f demo_store 3 = Some (Inr (c, m'))) \<and>
      cell_at m' c = Some (Malloced, Type_block (Some ty')) \<and>
      cell_at m' (elements ty') = Some (Malloced, Array_block sl) \<and>
      length sl = 4 \<and> sl ! 0 = Some 1 \<and> sl ! 2 = Some 2 \<and> sl ! 3 = Some 0 \<and>
      (\<exists>q'. sl ! 1 = Some q' \<and> q' \<noteq> 5 \<and> cell_at demo_store q' = None))"
proof -
  from clone_shares_atomic_children [OF demo_repr demo_budget]
  obtain c m' ty' ts' sl where
    run: "\<forall>f \<ge> tree_fuel (Agg 3 outer_type demo_children []).
      ffi_type_clone libffi f demo_store 3 = Some (Inr (c, m'))"
    and cc: "cell_at m' c = Some (Malloced, Type_block (Some ty'))"
    and ca: "cell_at m' (elements ty') = Some (Malloced, Array_block sl)"
    and len: "length sl = length demo_children + 1" "sl ! length demo_children = Some 0"
    and kids: "\<forall>i < length demo_children.
      (\<forall>q s aty. demo_children ! i = Atom q s aty \<longrightarrow>
          sl ! i = Some q \<and> ts' ! i = Atom q s aty \<and> cell_at m' q = cell_at demo_store q) \<and>
      (\<forall>q qty us j. demo_children ! i = Agg q qty us j \<longrightarrow>
          (\<exists>q'. sl ! i = Some q' \<and> q' \<noteq> q \<and> cell_at demo_store q' = None))"
    by blast
  have n: "length demo_children = 3" by (simp add: demo_children_def)
  have k0: "demo_children ! 0 = Atom 1 Static sint_type"
    and k1: "demo_children ! 1 = Agg 5 inner_type [Atom 1 Static sint_type] [None]"
    and k2: "demo_children ! 2 = Atom 2 Static double_type"
    by (simp_all add: demo_children_def inner_tree_def)
  from kids n k0 have s0: "sl ! 0 = Some 1" by simp
  from kids n k2 have s2: "sl ! 2 = Some 2" by simp
  from kids n k1 have s1: "\<exists>q'. sl ! 1 = Some q' \<and> q' \<noteq> 5 \<and> cell_at demo_store q' = None"
    by simp
  have "\<forall>f \<ge> 15. ffi_type_clone libffi f demo_store 3 = Some (Inr (c, m'))"
    using run demo_fuel by simp
  moreover have "length sl = 4" "sl ! 3 = Some 0" using len n by simp_all
  ultimately show ?thesis
    using cc ca s0 s1 s2 demo_repr demo_budget by blast
qed

end
